theory Spec2Isabelle
  imports Complex_Main "HOL-Library.Multiset"
begin

section \<open>R-tree GiST index for temporal numbers (tnumber\_gist.c)\<close>

subsection \<open>Double precision values\<close>

text \<open>
  A C \<^verbatim>\<open>double\<close> is one of: minus infinity, a finite number, plus infinity, NaN.
  Comparisons of doubles are exact, so they are modelled exactly. Finite arithmetic is
  idealised: a finite result is the exact real (no rounding, no overflow to infinity) and
  the two zeros are one value. The special values follow IEEE 754
  (\<open>inf - inf = NaN\<close>, \<open>0 * inf = NaN\<close>, \<open>x - NaN = NaN\<close>).
\<close>

datatype float8 = MInf | Fin real | PInf | NaN

fun isnan :: "float8 \<Rightarrow> bool" where
  "isnan NaN = True"
| "isnan _ = False"

text \<open>The native C operators \<^verbatim>\<open><\<close>, \<^verbatim>\<open><=\<close>, \<^verbatim>\<open>>\<close>, \<^verbatim>\<open>>=\<close>, \<^verbatim>\<open>==\<close>:
  every one of them is false as soon as an operand is NaN.\<close>

fun f_lt :: "float8 \<Rightarrow> float8 \<Rightarrow> bool" where
  "f_lt NaN b = False"
| "f_lt a NaN = False"
| "f_lt a MInf = False"
| "f_lt MInf b = True"
| "f_lt PInf b = False"
| "f_lt (Fin a) PInf = True"
| "f_lt (Fin a) (Fin b) = (a < b)"

definition f_eq :: "float8 \<Rightarrow> float8 \<Rightarrow> bool" where
  "f_eq a b = (\<not> isnan a \<and> \<not> isnan b \<and> a = b)"

definition f_gt :: "float8 \<Rightarrow> float8 \<Rightarrow> bool" where
  "f_gt a b = f_lt b a"

definition f_le :: "float8 \<Rightarrow> float8 \<Rightarrow> bool" where
  "f_le a b = (f_lt a b \<or> f_eq a b)"

definition f_ge :: "float8 \<Rightarrow> float8 \<Rightarrow> bool" where
  "f_ge a b = f_le b a"

definition f_ne :: "float8 \<Rightarrow> float8 \<Rightarrow> bool" where
  "f_ne a b = (\<not> f_eq a b)"

fun fsub :: "float8 \<Rightarrow> float8 \<Rightarrow> float8" where
  "fsub NaN b = NaN"
| "fsub a NaN = NaN"
| "fsub PInf PInf = NaN"
| "fsub MInf MInf = NaN"
| "fsub PInf b = PInf"
| "fsub MInf b = MInf"
| "fsub (Fin a) PInf = MInf"
| "fsub (Fin a) MInf = PInf"
| "fsub (Fin a) (Fin b) = Fin (a - b)"

fun fneg :: "float8 \<Rightarrow> float8" where
  "fneg NaN = NaN"
| "fneg PInf = MInf"
| "fneg MInf = PInf"
| "fneg (Fin a) = Fin (- a)"

fun fmul :: "float8 \<Rightarrow> float8 \<Rightarrow> float8" where
  "fmul NaN b = NaN"
| "fmul a NaN = NaN"
| "fmul (Fin a) (Fin b) = Fin (a * b)"
| "fmul (Fin a) PInf = (if a = 0 then NaN else if 0 < a then PInf else MInf)"
| "fmul (Fin a) MInf = (if a = 0 then NaN else if 0 < a then MInf else PInf)"
| "fmul PInf (Fin b) = (if b = 0 then NaN else if 0 < b then PInf else MInf)"
| "fmul MInf (Fin b) = (if b = 0 then NaN else if 0 < b then MInf else PInf)"
| "fmul PInf PInf = PInf"
| "fmul PInf MInf = MInf"
| "fmul MInf PInf = MInf"
| "fmul MInf MInf = PInf"

text \<open>Division; a zero divisor is taken as the positive zero.\<close>

fun fdiv :: "float8 \<Rightarrow> float8 \<Rightarrow> float8" where
  "fdiv NaN b = NaN"
| "fdiv a NaN = NaN"
| "fdiv (Fin a) (Fin b) =
     (if b = 0 then (if a = 0 then NaN else if 0 < a then PInf else MInf) else Fin (a / b))"
| "fdiv (Fin a) PInf = Fin 0"
| "fdiv (Fin a) MInf = Fin 0"
| "fdiv PInf (Fin b) = (if 0 \<le> b then PInf else MInf)"
| "fdiv MInf (Fin b) = (if 0 \<le> b then MInf else PInf)"
| "fdiv PInf b = NaN"
| "fdiv MInf b = NaN"

text \<open>PostgreSQL's macro \<^verbatim>\<open>Abs(x) = ((x) >= 0 ? (x) : -(x))\<close>.\<close>

definition Abs :: "float8 \<Rightarrow> float8" where
  "Abs x = (if f_ge x (Fin 0) then x else fneg x)"

text \<open>
  \<^verbatim>\<open>float8_cmp_internal\<close> is PostgreSQL's three-way comparison (utils/float.h): NaN equals
  NaN and is larger than every other value; otherwise the native order decides.
\<close>

definition float8_cmp_internal :: "float8 \<Rightarrow> float8 \<Rightarrow> int" where
  "float8_cmp_internal a b =
     (if isnan a then (if isnan b then 0 else 1)
      else if isnan b then - 1
      else if f_gt a b then 1
      else if f_lt a b then - 1
      else 0)"

text \<open>The convenience macros for NaN-aware comparisons.\<close>

definition FLOAT8_EQ :: "float8 \<Rightarrow> float8 \<Rightarrow> bool" where
  "FLOAT8_EQ a b = (float8_cmp_internal a b = 0)"

definition FLOAT8_LT :: "float8 \<Rightarrow> float8 \<Rightarrow> bool" where
  "FLOAT8_LT a b = (float8_cmp_internal a b < 0)"

definition FLOAT8_LE :: "float8 \<Rightarrow> float8 \<Rightarrow> bool" where
  "FLOAT8_LE a b = (float8_cmp_internal a b \<le> 0)"

definition FLOAT8_GT :: "float8 \<Rightarrow> float8 \<Rightarrow> bool" where
  "FLOAT8_GT a b = (float8_cmp_internal a b > 0)"

definition FLOAT8_GE :: "float8 \<Rightarrow> float8 \<Rightarrow> bool" where
  "FLOAT8_GE a b = (float8_cmp_internal a b \<ge> 0)"

definition FLOAT8_MAX :: "float8 \<Rightarrow> float8 \<Rightarrow> float8" where
  "FLOAT8_MAX a b = (if FLOAT8_GT a b then a else b)"

definition FLOAT8_MIN :: "float8 \<Rightarrow> float8 \<Rightarrow> float8" where
  "FLOAT8_MIN a b = (if FLOAT8_LT a b then a else b)"

subsection \<open>Boxes and box arithmetic\<close>

text \<open>
  The declaration of \<^verbatim>\<open>TBOX\<close> is not part of the sources at hand; the fields are the four
  bounds the code reads, each a floating-point value as in the specification's data model
  (\<open>Box: {xmin, xmax: float; tmin, tmax: float}\<close>).
\<close>

record TBOX =
  xmin :: float8
  tmin :: float8
  xmax :: float8
  tmax :: float8

definition rt_tbox_union :: "TBOX \<Rightarrow> TBOX \<Rightarrow> TBOX" where
  "rt_tbox_union a b =
     \<lparr> xmin = FLOAT8_MIN (xmin a) (xmin b),
       tmin = FLOAT8_MIN (tmin a) (tmin b),
       xmax = FLOAT8_MAX (xmax a) (xmax b),
       tmax = FLOAT8_MAX (tmax a) (tmax b) \<rparr>"

definition size_tbox :: "TBOX \<Rightarrow> float8" where
  "size_tbox box =
     (if FLOAT8_LE (xmax box) (xmin box) \<or> FLOAT8_LE (tmax box) (tmin box) then Fin 0
      else if isnan (xmax box) then PInf
      else fmul (fsub (xmax box) (xmin box)) (fsub (tmax box) (tmin box)))"

definition box_penalty :: "TBOX \<Rightarrow> TBOX \<Rightarrow> float8" where
  "box_penalty original new =
     (let unionbox = rt_tbox_union original new
      in fsub (size_tbox unionbox) (size_tbox original))"

definition adjustBox :: "TBOX \<Rightarrow> TBOX \<Rightarrow> TBOX" where
  "adjustBox b addon =
     (let b1 = (if FLOAT8_LT (xmax b) (xmax addon) then b\<lparr>xmax := xmax addon\<rparr> else b);
          b2 = (if FLOAT8_GT (xmin b1) (xmin addon) then b1\<lparr>xmin := xmin addon\<rparr> else b1);
          b3 = (if FLOAT8_LT (tmax b2) (tmax addon) then b2\<lparr>tmax := tmax addon\<rparr> else b2)
      in (if FLOAT8_GT (tmin b3) (tmin addon) then b3\<lparr>tmin := tmin addon\<rparr> else b3))"

subsection \<open>Relational predicates on boxes\<close>

text \<open>
  Modelled from the spec: the twelve functions \<^verbatim>\<open>*_tbox_tbox_internal\<close> are defined in
  temporal\_boxops.c and temporal\_posops.c, which are not part of the sources at hand;
  tnumber\_gist.c only calls them. The specification names them (Overlap, Contains,
  ContainedBy, Same, the directional relations Left/Right/Before/After and their
  "overlapping" variants) and the comment above \<^verbatim>\<open>index_leaf_consistent_tbox\<close> writes the
  strict ones out: left is \<^verbatim>\<open>box1->xmax < box2->xmin\<close>, right is
  \<^verbatim>\<open>box1->xmin > box2->xmax\<close>, "and similarly for before and after". The overlapping
  variants have the meaning the R-tree strategies of the same names have: OverLeft is
  "does not extend to the right of", OverRight is "does not extend to the left of", and
  likewise on the time axis. The comparisons are the native ones, as in the tests the
  leaf function writes inline.
\<close>

definition overlaps_tbox_tbox_internal :: "TBOX \<Rightarrow> TBOX \<Rightarrow> bool" where
  "overlaps_tbox_tbox_internal box1 box2 =
     (\<not> (f_lt (xmax box1) (xmin box2) \<or> f_gt (xmin box1) (xmax box2)) \<and>
      \<not> (f_lt (tmax box1) (tmin box2) \<or> f_gt (tmin box1) (tmax box2)))"

definition contains_tbox_tbox_internal :: "TBOX \<Rightarrow> TBOX \<Rightarrow> bool" where
  "contains_tbox_tbox_internal box1 box2 =
     (\<not> (f_lt (xmin box2) (xmin box1) \<or> f_gt (xmax box2) (xmax box1)) \<and>
      \<not> (f_lt (tmin box2) (tmin box1) \<or> f_gt (tmax box2) (tmax box1)))"

definition contained_tbox_tbox_internal :: "TBOX \<Rightarrow> TBOX \<Rightarrow> bool" where
  "contained_tbox_tbox_internal box1 box2 = contains_tbox_tbox_internal box2 box1"

definition same_tbox_tbox_internal :: "TBOX \<Rightarrow> TBOX \<Rightarrow> bool" where
  "same_tbox_tbox_internal box1 box2 =
     (\<not> (f_ne (xmin box1) (xmin box2) \<or> f_ne (xmax box1) (xmax box2)) \<and>
      \<not> (f_ne (tmin box1) (tmin box2) \<or> f_ne (tmax box1) (tmax box2)))"

definition left_tbox_tbox_internal :: "TBOX \<Rightarrow> TBOX \<Rightarrow> bool" where
  "left_tbox_tbox_internal box1 box2 = f_lt (xmax box1) (xmin box2)"

definition overleft_tbox_tbox_internal :: "TBOX \<Rightarrow> TBOX \<Rightarrow> bool" where
  "overleft_tbox_tbox_internal box1 box2 = f_le (xmax box1) (xmax box2)"

definition right_tbox_tbox_internal :: "TBOX \<Rightarrow> TBOX \<Rightarrow> bool" where
  "right_tbox_tbox_internal box1 box2 = f_gt (xmin box1) (xmax box2)"

definition overright_tbox_tbox_internal :: "TBOX \<Rightarrow> TBOX \<Rightarrow> bool" where
  "overright_tbox_tbox_internal box1 box2 = f_ge (xmin box1) (xmin box2)"

definition before_tbox_tbox_internal :: "TBOX \<Rightarrow> TBOX \<Rightarrow> bool" where
  "before_tbox_tbox_internal box1 box2 = f_lt (tmax box1) (tmin box2)"

definition overbefore_tbox_tbox_internal :: "TBOX \<Rightarrow> TBOX \<Rightarrow> bool" where
  "overbefore_tbox_tbox_internal box1 box2 = f_le (tmax box1) (tmax box2)"

definition after_tbox_tbox_internal :: "TBOX \<Rightarrow> TBOX \<Rightarrow> bool" where
  "after_tbox_tbox_internal box1 box2 = f_gt (tmin box1) (tmax box2)"

definition overafter_tbox_tbox_internal :: "TBOX \<Rightarrow> TBOX \<Rightarrow> bool" where
  "overafter_tbox_tbox_internal box1 box2 = f_ge (tmin box1) (tmin box2)"

subsection \<open>Strategies and the two consistency tables\<close>

text \<open>
  A \<^verbatim>\<open>StrategyNumber\<close> is a 16-bit number; the twelve \<^verbatim>\<open>RT...StrategyNumber\<close> macros name
  the recognised ones. Every other number is \<open>OtherStrategyNumber n\<close> and reaches the
  \<^verbatim>\<open>default\<close> branch, where \<^verbatim>\<open>elog(ERROR, ...)\<close> aborts the call.
\<close>

datatype StrategyNumber =
    RTOverlapStrategyNumber
  | RTContainsStrategyNumber
  | RTContainedByStrategyNumber
  | RTSameStrategyNumber
  | RTLeftStrategyNumber
  | RTOverLeftStrategyNumber
  | RTRightStrategyNumber
  | RTOverRightStrategyNumber
  | RTBeforeStrategyNumber
  | RTOverBeforeStrategyNumber
  | RTAfterStrategyNumber
  | RTOverAfterStrategyNumber
  | OtherStrategyNumber nat

datatype error = UnrecognizedStrategy StrategyNumber

fun index_leaf_consistent_tbox :: "TBOX \<Rightarrow> TBOX \<Rightarrow> StrategyNumber \<Rightarrow> error + bool" where
  "index_leaf_consistent_tbox key query RTOverlapStrategyNumber =
     Inr (overlaps_tbox_tbox_internal key query)"
| "index_leaf_consistent_tbox key query RTContainsStrategyNumber =
     Inr (contains_tbox_tbox_internal key query)"
| "index_leaf_consistent_tbox key query RTContainedByStrategyNumber =
     Inr (contained_tbox_tbox_internal key query)"
| "index_leaf_consistent_tbox key query RTSameStrategyNumber =
     Inr (same_tbox_tbox_internal key query)"
| "index_leaf_consistent_tbox key query RTLeftStrategyNumber =
     Inr (f_le (xmax key) (xmin query))"
| "index_leaf_consistent_tbox key query RTOverLeftStrategyNumber =
     Inr (overleft_tbox_tbox_internal key query)"
| "index_leaf_consistent_tbox key query RTRightStrategyNumber =
     Inr (f_ge (xmin key) (xmax query))"
| "index_leaf_consistent_tbox key query RTOverRightStrategyNumber =
     Inr (overright_tbox_tbox_internal key query)"
| "index_leaf_consistent_tbox key query RTBeforeStrategyNumber =
     Inr (f_le (tmax key) (tmin query))"
| "index_leaf_consistent_tbox key query RTOverBeforeStrategyNumber =
     Inr (overbefore_tbox_tbox_internal key query)"
| "index_leaf_consistent_tbox key query RTAfterStrategyNumber =
     Inr (f_ge (tmin key) (tmax query))"
| "index_leaf_consistent_tbox key query RTOverAfterStrategyNumber =
     Inr (overafter_tbox_tbox_internal key query)"
| "index_leaf_consistent_tbox key query (OtherStrategyNumber n) =
     Inl (UnrecognizedStrategy (OtherStrategyNumber n))"

fun gist_internal_consistent_tbox :: "TBOX \<Rightarrow> TBOX \<Rightarrow> StrategyNumber \<Rightarrow> error + bool" where
  "gist_internal_consistent_tbox key query RTOverlapStrategyNumber =
     Inr (overlaps_tbox_tbox_internal key query)"
| "gist_internal_consistent_tbox key query RTContainedByStrategyNumber =
     Inr (overlaps_tbox_tbox_internal key query)"
| "gist_internal_consistent_tbox key query RTContainsStrategyNumber =
     Inr (contains_tbox_tbox_internal key query)"
| "gist_internal_consistent_tbox key query RTSameStrategyNumber =
     Inr (contains_tbox_tbox_internal key query)"
| "gist_internal_consistent_tbox key query RTLeftStrategyNumber =
     Inr (\<not> overright_tbox_tbox_internal key query)"
| "gist_internal_consistent_tbox key query RTOverLeftStrategyNumber =
     Inr (\<not> right_tbox_tbox_internal key query)"
| "gist_internal_consistent_tbox key query RTRightStrategyNumber =
     Inr (\<not> overleft_tbox_tbox_internal key query)"
| "gist_internal_consistent_tbox key query RTOverRightStrategyNumber =
     Inr (\<not> left_tbox_tbox_internal key query)"
| "gist_internal_consistent_tbox key query RTBeforeStrategyNumber =
     Inr (\<not> overafter_tbox_tbox_internal key query)"
| "gist_internal_consistent_tbox key query RTOverBeforeStrategyNumber =
     Inr (\<not> after_tbox_tbox_internal key query)"
| "gist_internal_consistent_tbox key query RTAfterStrategyNumber =
     Inr (\<not> overbefore_tbox_tbox_internal key query)"
| "gist_internal_consistent_tbox key query RTOverAfterStrategyNumber =
     Inr (\<not> before_tbox_tbox_internal key query)"
| "gist_internal_consistent_tbox key query (OtherStrategyNumber n) =
     Inl (UnrecognizedStrategy (OtherStrategyNumber n))"


subsection \<open>The GiST consistent method\<close>

text \<open>
  The functions of PostgreSQL and of the rest of the extension that
  \<^verbatim>\<open>gist_tnumber_consistent\<close> and \<^verbatim>\<open>gist_tnumber_compress\<close> call are not part of the sources
  at hand; they are taken as parameters, collected in one record. A \<^verbatim>\<open>Datum\<close> is the
  untyped value \<open>'d\<close>, a range is \<open>'r\<close>, a temporal value is \<open>'t\<close>; a function that
  returns a pointer returns an option, \<open>None\<close> being \<^verbatim>\<open>NULL\<close>.
\<close>

datatype CachedType = T_INTRANGE | T_FLOATRANGE | T_TBOX

record ('d, 'r, 't) externals =
  DatumGetTboxP :: "'d \<Rightarrow> TBOX option"
  DatumGetRangeP :: "'d \<Rightarrow> 'r option"
  DatumGetTemporal :: "'d \<Rightarrow> 't option"
  PointerGetDatum :: "TBOX \<Rightarrow> 'd"
  type_oid :: "CachedType \<Rightarrow> nat"
  temporal_type_oid :: "nat \<Rightarrow> bool"
  intrange_to_tbox_internal :: "'r \<Rightarrow> TBOX"
  floatrange_to_tbox_internal :: "'r \<Rightarrow> TBOX"
  temporal_bbox :: "'t \<Rightarrow> TBOX"

text \<open>A \<^verbatim>\<open>GISTENTRY\<close>; of the page only \<^verbatim>\<open>GIST_LEAF(entry)\<close> is read.\<close>

record 'd GISTENTRY =
  key :: 'd
  rel :: nat
  page :: nat
  GIST_LEAF :: bool
  offset :: nat
  leafkey :: bool

text \<open>
  The call returns the value left in \<^verbatim>\<open>*recheck\<close> together with its result. The arguments
  are the entry, the query datum (argument 1), the strategy (argument 2), the subtype
  (argument 3) and the value \<^verbatim>\<open>*recheck\<close> holds on entry.
\<close>

definition gist_tnumber_consistent ::
  "('d, 'r, 't) externals \<Rightarrow> 'd GISTENTRY \<Rightarrow> 'd \<Rightarrow> StrategyNumber \<Rightarrow> nat \<Rightarrow> bool
     \<Rightarrow> bool \<times> (error + bool)" where
  "gist_tnumber_consistent ext entry arg1 strategy subtype recheck0 =
     (let recheck = True in
      case DatumGetTboxP ext (key entry) of
        None \<Rightarrow> (recheck, Inr False)
      | Some keyp \<Rightarrow>
          (let query =
             (if subtype = type_oid ext T_INTRANGE then
                (case DatumGetRangeP ext arg1 of
                   None \<Rightarrow> Inr None
                 | Some rangep \<Rightarrow> Inr (Some (intrange_to_tbox_internal ext rangep)))
              else if subtype = type_oid ext T_FLOATRANGE then
                (case DatumGetRangeP ext arg1 of
                   None \<Rightarrow> Inr None
                 | Some rangep \<Rightarrow> Inr (Some (floatrange_to_tbox_internal ext rangep)))
              else if subtype = type_oid ext T_TBOX then
                (case DatumGetTboxP ext arg1 of
                   None \<Rightarrow> Inr None
                 | Some box \<Rightarrow> Inr (Some box))
              else if temporal_type_oid ext subtype then
                (case DatumGetTemporal ext arg1 of
                   None \<Rightarrow> Inr None
                 | Some temp \<Rightarrow> Inr (Some (temporal_bbox ext temp)))
              else Inl (UnrecognizedStrategy strategy))
           in case query of
                Inl e \<Rightarrow> (recheck, Inl e)
              | Inr None \<Rightarrow> (recheck, Inr False)
              | Inr (Some query) \<Rightarrow>
                  (if GIST_LEAF entry
                   then (recheck, index_leaf_consistent_tbox keyp query strategy)
                   else (recheck, gist_internal_consistent_tbox keyp query strategy))))"

subsection \<open>The compress method\<close>

text \<open>\<^verbatim>\<open>gistentryinit(e, k, r, pg, o, l)\<close> fills the five fields of an entry.\<close>

definition gistentryinit :: "'d \<Rightarrow> nat \<Rightarrow> nat \<Rightarrow> bool \<Rightarrow> nat \<Rightarrow> bool \<Rightarrow> 'd GISTENTRY" where
  "gistentryinit k r pg pgleaf off l =
     \<lparr> key = k, rel = r, page = pg, GIST_LEAF = pgleaf, offset = off, leafkey = l \<rparr>"

text \<open>
  A leaf key holds the indexed temporal value; \<^verbatim>\<open>DatumGetTemporal\<close> on it is not
  \<^verbatim>\<open>NULL\<close>-checked by the code, so the box of a missing value is left to the parameter
  \<open>nobox\<close>.
\<close>

definition gist_tnumber_compress ::
  "('d, 'r, 't) externals \<Rightarrow> TBOX \<Rightarrow> 'd GISTENTRY \<Rightarrow> 'd GISTENTRY" where
  "gist_tnumber_compress ext nobox entry =
     (if leafkey entry then
        (let box = (case DatumGetTemporal ext (key entry) of
                      Some temp \<Rightarrow> temporal_bbox ext temp
                    | None \<Rightarrow> nobox)
         in gistentryinit (PointerGetDatum ext box)
              (rel entry) (page entry) (GIST_LEAF entry) (offset entry) False)
      else entry)"

subsection \<open>The split method\<close>

text \<open>
  The entry vector holds the keys \<^verbatim>\<open>entryvec->vector[i].key\<close> for
  \<open>i = FirstOffsetNumber .. maxoff\<close>; it is modelled by the list of these boxes, so that
  entry \<open>i\<close> is \<open>es ! (i - 1)\<close> and \<open>maxoff = nentries = length es\<close>. Each output array
  of the split vector is the list of the offsets stored so far; \<^verbatim>\<open>spl_nleft\<close> and
  \<^verbatim>\<open>spl_nright\<close> are kept beside them as the code does. A datum is \<open>None\<close> where
  the pointer is \<^verbatim>\<open>NULL\<close>.
\<close>

type_synonym OffsetNumber = nat

definition FirstOffsetNumber :: OffsetNumber where
  "FirstOffsetNumber = 1"

record GIST_SPLITVEC =
  spl_left :: "OffsetNumber list"
  spl_nleft :: int
  spl_ldatum :: "TBOX option"
  spl_right :: "OffsetNumber list"
  spl_nright :: int
  spl_rdatum :: "TBOX option"

text \<open>One round of the loop of \<^verbatim>\<open>tbox_fallbackSplit\<close>, for the offset \<open>i\<close>.\<close>

definition tbox_fallbackSplit_step ::
  "TBOX list \<Rightarrow> OffsetNumber \<Rightarrow> OffsetNumber \<Rightarrow> GIST_SPLITVEC \<Rightarrow> GIST_SPLITVEC" where
  "tbox_fallbackSplit_step es maxoff i v =
     (let cur = es ! (i - 1) in
      if i \<le> (maxoff - FirstOffsetNumber + 1) div 2 then
        v\<lparr> spl_left := spl_left v @ [i],
           spl_ldatum := (case spl_ldatum v of None \<Rightarrow> Some cur
                          | Some unionL \<Rightarrow> Some (adjustBox unionL cur)),
           spl_nleft := spl_nleft v + 1 \<rparr>
      else
        v\<lparr> spl_right := spl_right v @ [i],
           spl_rdatum := (case spl_rdatum v of None \<Rightarrow> Some cur
                          | Some unionR \<Rightarrow> Some (adjustBox unionR cur)),
           spl_nright := spl_nright v + 1 \<rparr>)"

definition tbox_fallbackSplit :: "TBOX list \<Rightarrow> GIST_SPLITVEC" where
  "tbox_fallbackSplit es =
     (let maxoff = length es in
      fold (tbox_fallbackSplit_step es maxoff) [FirstOffsetNumber ..< Suc maxoff]
        \<lparr> spl_left = [], spl_nleft = 0, spl_ldatum = None,
          spl_right = [], spl_nright = 0, spl_rdatum = None \<rparr>)"

record CommonEntry =
  index :: OffsetNumber
  delta :: float8

text \<open>
  The context of \<^verbatim>\<open>g_tbox_consider_split\<close>. The two \<^verbatim>\<open>float4\<close> fields are idealised like
  the doubles: \<open>ratio\<close> is the exact quotient of the two counts and \<open>overlap\<close> the
  unrounded quotient.
\<close>

record ConsiderSplitContext =
  entriesCount :: int
  boundingBox :: TBOX
  first :: bool
  leftUpper :: float8
  rightLower :: float8
  ratio :: float8
  overlap :: float8
  dim :: int
  range_w :: float8

record SplitInterval =
  lower :: float8
  upper :: float8

definition interval_cmp_lower :: "SplitInterval \<Rightarrow> SplitInterval \<Rightarrow> int" where
  "interval_cmp_lower i1 i2 = float8_cmp_internal (lower i1) (lower i2)"

definition interval_cmp_upper :: "SplitInterval \<Rightarrow> SplitInterval \<Rightarrow> int" where
  "interval_cmp_upper i1 i2 = float8_cmp_internal (upper i1) (upper i2)"

definition non_negative :: "float8 \<Rightarrow> float8" where
  "non_negative val = (if f_ge val (Fin 0) then val else Fin 0)"

text \<open>
  The test \<^verbatim>\<open>ratio > LIMIT_RATIO\<close> compares a \<^verbatim>\<open>float4\<close> with the \<^verbatim>\<open>double\<close> constant 0.3,
  and here the rounding decides: \<open>ratio\<close> is the quotient \<open>cnt / entriesCount\<close> rounded
  to the nearest \<^verbatim>\<open>float4\<close>, and the double 0.3 lies strictly between the two neighbouring
  \<^verbatim>\<open>float4\<close> values \<open>10066329 / 2^25\<close> and \<open>10066330 / 2^25\<close>. So the test holds exactly when
  the quotient is at least their midpoint \<open>20132659 / 2^26\<close> (which rounds to the even
  upper neighbour); in particular it holds for the quotient \<open>3/10\<close> itself. A zero
  \<open>entriesCount\<close> gives a NaN or infinite ratio of no count, and no test.
\<close>

definition ratio_gt_LIMIT_RATIO :: "int \<Rightarrow> int \<Rightarrow> bool" where
  "ratio_gt_LIMIT_RATIO cnt n = (0 < n \<and> 20132659 * n \<le> 67108864 * cnt)"

definition g_tbox_consider_split ::
  "ConsiderSplitContext \<Rightarrow> int \<Rightarrow> float8 \<Rightarrow> int \<Rightarrow> float8 \<Rightarrow> int \<Rightarrow> ConsiderSplitContext" where
  "g_tbox_consider_split context dimNum rightLower' minLeftCount leftUpper' maxLeftCount =
     (let leftCount =
            (if minLeftCount \<ge> (entriesCount context + 1) div 2 then minLeftCount
             else if maxLeftCount \<le> entriesCount context div 2 then maxLeftCount
             else entriesCount context div 2);
          rightCount = entriesCount context - leftCount;
          ratio' = fdiv (Fin (of_int (min leftCount rightCount)))
                        (Fin (of_int (entriesCount context)))
      in
      if ratio_gt_LIMIT_RATIO (min leftCount rightCount) (entriesCount context) then
        (let range' =
               (if dimNum = 0
                then fsub (xmax (boundingBox context)) (xmin (boundingBox context))
                else fsub (tmax (boundingBox context)) (tmin (boundingBox context)));
             overlap' = fdiv (fsub leftUpper' rightLower') range';
             selectthis =
               (if first context then True
                else if dim context = dimNum then
                  f_lt overlap' (overlap context) \<or>
                  (f_eq overlap' (overlap context) \<and> f_gt ratio' (ratio context))
                else
                  f_lt (non_negative overlap') (non_negative (overlap context)) \<or>
                  (f_gt range' (range_w context) \<and>
                   f_le (non_negative overlap') (non_negative (overlap context))))
         in
         if selectthis then
           context\<lparr> first := False, ratio := ratio', range_w := range', overlap := overlap',
                    rightLower := rightLower', leftUpper := leftUpper', dim := dimNum \<rparr>
         else context)
      else context)"

definition common_entry_cmp :: "CommonEntry \<Rightarrow> CommonEntry \<Rightarrow> int" where
  "common_entry_cmp i1 i2 =
     (if f_lt (delta i1) (delta i2) then - 1
      else if f_gt (delta i1) (delta i2) then 1
      else 0)"

text \<open>
  \<^verbatim>\<open>qsort\<close> is the C library's: it sorts the array by the comparison function and leaves
  the order of elements that compare equal unspecified. The model sorts by insertion.
\<close>

fun qsort_insert :: "('a \<Rightarrow> 'a \<Rightarrow> int) \<Rightarrow> 'a \<Rightarrow> 'a list \<Rightarrow> 'a list" where
  "qsort_insert cmp x [] = [x]"
| "qsort_insert cmp x (y # ys) =
     (if cmp x y \<le> 0 then x # y # ys else y # qsort_insert cmp x ys)"

definition qsort :: "('a \<Rightarrow> 'a \<Rightarrow> int) \<Rightarrow> 'a list \<Rightarrow> 'a list" where
  "qsort cmp xs = foldr (qsort_insert cmp) xs []"

text \<open>
  The first scan of an axis (lower bounds of the right group, ascending). The two inner
  \<^verbatim>\<open>while\<close> loops are \<open>next_lower_bound\<close> and \<open>count_left\<close>, the outer \<^verbatim>\<open>while (true)\<close> is
  \<open>scan_lower_bounds\<close>.
\<close>

function next_lower_bound ::
  "SplitInterval list \<Rightarrow> int \<Rightarrow> float8 \<Rightarrow> int \<Rightarrow> float8 \<Rightarrow> int \<times> float8" where
  "next_lower_bound intervalsLower nentries rightLower' i1 leftUpper' =
     (if i1 < nentries \<and> FLOAT8_EQ rightLower' (lower (intervalsLower ! nat i1)) then
        next_lower_bound intervalsLower nentries rightLower' (i1 + 1)
          (if FLOAT8_LT leftUpper' (upper (intervalsLower ! nat i1))
           then upper (intervalsLower ! nat i1) else leftUpper')
      else (i1, leftUpper'))"
  by pat_completeness auto
termination
  by (relation "measure (\<lambda>(il, n, rl, i1, lu). nat (n - i1))") auto

declare next_lower_bound.simps [simp del]

function count_left :: "SplitInterval list \<Rightarrow> int \<Rightarrow> float8 \<Rightarrow> int \<Rightarrow> int" where
  "count_left intervalsUpper nentries leftUpper' i2 =
     (if i2 < nentries \<and> FLOAT8_LE (upper (intervalsUpper ! nat i2)) leftUpper'
      then count_left intervalsUpper nentries leftUpper' (i2 + 1)
      else i2)"
  by pat_completeness auto
termination
  by (relation "measure (\<lambda>(iu, n, lu, i2). nat (n - i2))") auto

declare count_left.simps [simp del]

function scan_lower_bounds ::
  "SplitInterval list \<Rightarrow> SplitInterval list \<Rightarrow> int \<Rightarrow> int \<Rightarrow> ConsiderSplitContext
     \<Rightarrow> int \<Rightarrow> int \<Rightarrow> float8 \<Rightarrow> float8 \<Rightarrow> ConsiderSplitContext" where
  "scan_lower_bounds intervalsLower intervalsUpper nentries d context i1 i2 rightLower' leftUpper' =
     (let r = next_lower_bound intervalsLower nentries rightLower' i1 leftUpper';
          i1n = fst r;
          leftUppern = snd r
      in
      if i1n \<ge> nentries then context
      else
        (let rightLowern = lower (intervalsLower ! nat i1n);
             i2n = count_left intervalsUpper nentries leftUppern i2
         in scan_lower_bounds intervalsLower intervalsUpper nentries d
              (g_tbox_consider_split context d rightLowern i1n leftUppern i2n)
              i1n i2n rightLowern leftUppern))"
  by pat_completeness auto
termination
proof (relation "measure (\<lambda>(il, iu, n, d, c, i1, i2, rl, lu).
          2 * nat (n - i1) + (if i1 < n \<and> FLOAT8_EQ rl (lower (il ! nat i1)) then 0 else 1))",
       goal_cases)
  case 1
  show ?case by simp
next
  case (2 il iu n d c i1 i2 rl lu r i1n lun rln i2n)
  have mono: "i1 \<le> fst (next_lower_bound il n rl i1 lu)" for i1 lu
    by (induction il n rl i1 lu rule: next_lower_bound.induct)
       (subst next_lower_bound.simps, auto)
  have step: "i1 < fst (next_lower_bound il n rl i1 lu)"
    if "i1 < n" "FLOAT8_EQ rl (lower (il ! nat i1))"
  proof -
    let ?lu = "if FLOAT8_LT lu (upper (il ! nat i1)) then upper (il ! nat i1) else lu"
    have "next_lower_bound il n rl i1 lu = next_lower_bound il n rl (i1 + 1) ?lu"
      using that by (subst next_lower_bound.simps) simp
    moreover have "i1 + 1 \<le> fst (next_lower_bound il n rl (i1 + 1) ?lu)"
      by (rule mono)
    ultimately show ?thesis by simp
  qed
  have refl: "FLOAT8_EQ (lower (il ! nat i1n)) (lower (il ! nat i1n))"
    by (cases "lower (il ! nat i1n)")
       (auto simp: FLOAT8_EQ_def float8_cmp_internal_def f_gt_def)
  show ?case
  proof (cases "i1 < n \<and> FLOAT8_EQ rl (lower (il ! nat i1))")
    case True
    then have "i1 < i1n" using step 2 by simp
    then show ?thesis using 2 True refl by simp
  next
    case False
    have "i1 \<le> i1n" using mono 2 by simp
    then show ?thesis using 2 False refl by auto
  qed
qed

declare scan_lower_bounds.simps [simp del]

text \<open>
  The second scan of an axis (upper bounds of the left group, descending), with the
  inner loops \<open>next_upper_bound\<close> and \<open>count_right\<close>.
\<close>

function next_upper_bound ::
  "SplitInterval list \<Rightarrow> float8 \<Rightarrow> int \<Rightarrow> float8 \<Rightarrow> int \<times> float8" where
  "next_upper_bound intervalsUpper leftUpper' i2 rightLower' =
     (if i2 \<ge> 0 \<and> FLOAT8_EQ leftUpper' (upper (intervalsUpper ! nat i2)) then
        next_upper_bound intervalsUpper leftUpper' (i2 - 1)
          (if FLOAT8_GT rightLower' (lower (intervalsUpper ! nat i2))
           then lower (intervalsUpper ! nat i2) else rightLower')
      else (i2, rightLower'))"
  by pat_completeness auto
termination
  by (relation "measure (\<lambda>(iu, lu, i2, rl). nat (i2 + 1))") auto

declare next_upper_bound.simps [simp del]

function count_right :: "SplitInterval list \<Rightarrow> float8 \<Rightarrow> int \<Rightarrow> int" where
  "count_right intervalsLower rightLower' i1 =
     (if i1 \<ge> 0 \<and> FLOAT8_GE (lower (intervalsLower ! nat i1)) rightLower'
      then count_right intervalsLower rightLower' (i1 - 1)
      else i1)"
  by pat_completeness auto
termination
  by (relation "measure (\<lambda>(il, rl, i1). nat (i1 + 1))") auto

declare count_right.simps [simp del]

function scan_upper_bounds ::
  "SplitInterval list \<Rightarrow> SplitInterval list \<Rightarrow> int \<Rightarrow> ConsiderSplitContext
     \<Rightarrow> int \<Rightarrow> int \<Rightarrow> float8 \<Rightarrow> float8 \<Rightarrow> ConsiderSplitContext" where
  "scan_upper_bounds intervalsLower intervalsUpper d context i1 i2 rightLower' leftUpper' =
     (let r = next_upper_bound intervalsUpper leftUpper' i2 rightLower';
          i2n = fst r;
          rightLowern = snd r
      in
      if i2n < 0 then context
      else
        (let leftUppern = upper (intervalsUpper ! nat i2n);
             i1n = count_right intervalsLower rightLowern i1
         in scan_upper_bounds intervalsLower intervalsUpper d
              (g_tbox_consider_split context d rightLowern (i1n + 1) leftUppern (i2n + 1))
              i1n i2n rightLowern leftUppern))"
  by pat_completeness auto
termination
proof (relation "measure (\<lambda>(il, iu, d, c, i1, i2, rl, lu).
          2 * nat (i2 + 1) + (if i2 \<ge> 0 \<and> FLOAT8_EQ lu (upper (iu ! nat i2)) then 0 else 1))",
       goal_cases)
  case 1
  show ?case by simp
next
  case (2 il iu d c i1 i2 rl lu r i2n rln lun i1n)
  have mono: "fst (next_upper_bound iu lu i2 rl) \<le> i2" for i2 rl
    by (induction iu lu i2 rl rule: next_upper_bound.induct)
       (subst next_upper_bound.simps, auto)
  have step: "fst (next_upper_bound iu lu i2 rl) < i2"
    if "i2 \<ge> 0" "FLOAT8_EQ lu (upper (iu ! nat i2))"
  proof -
    let ?rl = "if FLOAT8_GT rl (lower (iu ! nat i2)) then lower (iu ! nat i2) else rl"
    have "next_upper_bound iu lu i2 rl = next_upper_bound iu lu (i2 - 1) ?rl"
      using that by (subst next_upper_bound.simps) simp
    moreover have "fst (next_upper_bound iu lu (i2 - 1) ?rl) \<le> i2 - 1"
      by (rule mono)
    ultimately show ?thesis by simp
  qed
  have refl: "FLOAT8_EQ (upper (iu ! nat i2n)) (upper (iu ! nat i2n))"
    by (cases "upper (iu ! nat i2n)")
       (auto simp: FLOAT8_EQ_def float8_cmp_internal_def f_gt_def)
  show ?case
  proof (cases "i2 \<ge> 0 \<and> FLOAT8_EQ lu (upper (iu ! nat i2))")
    case True
    then have "i2n < i2" using step 2 by simp
    then show ?thesis using 2 True refl by simp
  next
    case False
    have "i2n \<le> i2" using mono 2 by simp
    then show ?thesis using 2 False refl by auto
  qed
qed

declare scan_upper_bounds.simps [simp del]

text \<open>One axis: project, sort twice, scan twice.\<close>

definition project_interval :: "int \<Rightarrow> TBOX \<Rightarrow> SplitInterval" where
  "project_interval d box =
     (if d = 0 then \<lparr> lower = xmin box, upper = xmax box \<rparr>
      else \<lparr> lower = tmin box, upper = tmax box \<rparr>)"

definition scan_axis ::
  "TBOX list \<Rightarrow> int \<Rightarrow> ConsiderSplitContext \<Rightarrow> int \<Rightarrow> ConsiderSplitContext" where
  "scan_axis es nentries context d =
     (let intervals = map (project_interval d) es;
          intervalsLower = qsort interval_cmp_lower intervals;
          intervalsUpper = qsort interval_cmp_upper intervals;
          context1 =
            scan_lower_bounds intervalsLower intervalsUpper nentries d context 0 0
              (lower (intervalsLower ! 0)) (lower (intervalsUpper ! 0))
      in scan_upper_bounds intervalsLower intervalsUpper d context1
           (nentries - 1) (nentries - 1)
           (upper (intervalsLower ! nat (nentries - 1)))
           (upper (intervalsUpper ! nat (nentries - 1))))"

definition zero_TBOX :: TBOX where
  "zero_TBOX = \<lparr> xmin = Fin 0, tmin = Fin 0, xmax = Fin 0, tmax = Fin 0 \<rparr>"

definition picksplit_boundingBox :: "TBOX list \<Rightarrow> TBOX" where
  "picksplit_boundingBox es =
     fold (\<lambda>i bb. if i = FirstOffsetNumber then es ! (i - 1) else adjustBox bb (es ! (i - 1)))
       [FirstOffsetNumber ..< Suc (length es)] zero_TBOX"

text \<open>The context after both axes have been scanned (\<^verbatim>\<open>for (dim = 0; dim < 2; dim++)\<close>).\<close>

definition picksplit_context :: "TBOX list \<Rightarrow> ConsiderSplitContext" where
  "picksplit_context es =
     (let nentries = int (length es);
          context = \<lparr> entriesCount = nentries, boundingBox = picksplit_boundingBox es,
                      first = True, leftUpper = Fin 0, rightLower = Fin 0, ratio = Fin 0,
                      overlap = Fin 0, dim = 0, range_w = Fin 0 \<rparr>
      in fold (\<lambda>d c. scan_axis es nentries c d) [0, 1] context)"

text \<open>
  The state of the second half of \<^verbatim>\<open>gist_tbox_picksplit\<close>: the split vector \<open>v\<close> together
  with the local boxes and the array of common entries
  (\<open>commonEntriesCount\<close> is its length).
\<close>

record split_state = GIST_SPLITVEC +
  leftBox :: TBOX
  rightBox :: TBOX
  commonEntries :: "CommonEntry list"

definition PLACE_LEFT :: "TBOX \<Rightarrow> OffsetNumber \<Rightarrow> split_state \<Rightarrow> split_state" where
  "PLACE_LEFT box off st =
     st\<lparr> leftBox := (if spl_nleft st > 0 then adjustBox (leftBox st) box else box),
         spl_left := spl_left st @ [off],
         spl_nleft := spl_nleft st + 1 \<rparr>"

definition PLACE_RIGHT :: "TBOX \<Rightarrow> OffsetNumber \<Rightarrow> split_state \<Rightarrow> split_state" where
  "PLACE_RIGHT box off st =
     st\<lparr> rightBox := (if spl_nright st > 0 then adjustBox (rightBox st) box else box),
         spl_right := spl_right st @ [off],
         spl_nright := spl_nright st + 1 \<rparr>"

text \<open>
  One round of the loop that distributes the entries which can be placed unambiguously
  and collects the common entries (their \<open>delta\<close> is set later). The \<^verbatim>\<open>Assert\<close> of the
  else branch has no effect on the result.
\<close>

definition distribute_entry ::
  "ConsiderSplitContext \<Rightarrow> TBOX list \<Rightarrow> OffsetNumber \<Rightarrow> split_state \<Rightarrow> split_state" where
  "distribute_entry context es i st =
     (let box = es ! (i - 1);
          lower' = (if dim context = 0 then xmin box else tmin box);
          upper' = (if dim context = 0 then xmax box else tmax box)
      in
      if FLOAT8_LE upper' (leftUpper context) then
        (if FLOAT8_GE lower' (rightLower context)
         then st\<lparr> commonEntries := commonEntries st @ [\<lparr> index = i, delta = Fin 0 \<rparr>] \<rparr>
         else PLACE_LEFT box i st)
      else PLACE_RIGHT box i st)"

text \<open>
  \<^verbatim>\<open>m = ceil(LIMIT_RATIO * (double) nentries)\<close>: the least integer that is at least three
  tenths of \<open>nentries\<close>.
\<close>

definition ceil_LIMIT_RATIO :: "int \<Rightarrow> int" where
  "ceil_LIMIT_RATIO nentries = (3 * nentries + 9) div 10"

function place_common ::
  "TBOX list \<Rightarrow> int \<Rightarrow> CommonEntry list \<Rightarrow> int \<Rightarrow> int \<Rightarrow> split_state \<Rightarrow> split_state" where
  "place_common es m entries commonEntriesCount i st =
     (if i < commonEntriesCount then
        (let off = index (entries ! nat i);
             box = es ! (off - 1)
         in place_common es m entries commonEntriesCount (i + 1)
              (if spl_nleft st + (commonEntriesCount - i) \<le> m then PLACE_LEFT box off st
               else if spl_nright st + (commonEntriesCount - i) \<le> m then PLACE_RIGHT box off st
               else if f_lt (box_penalty (leftBox st) box) (box_penalty (rightBox st) box)
               then PLACE_LEFT box off st
               else PLACE_RIGHT box off st))
      else st)"
  by pat_completeness auto
termination
  by (relation "measure (\<lambda>(es, m, entries, n, i, st). nat (n - i))") auto

declare place_common.simps [simp del]

definition distribute_common :: "TBOX list \<Rightarrow> int \<Rightarrow> split_state \<Rightarrow> split_state" where
  "distribute_common es nentries st =
     (let commonEntriesCount = int (length (commonEntries st)) in
      if commonEntriesCount > 0 then
        (let m = ceil_LIMIT_RATIO nentries;
             with_delta =
               map (\<lambda>c. c\<lparr> delta :=
                      Abs (fsub (box_penalty (leftBox st) (es ! (index c - 1)))
                                (box_penalty (rightBox st) (es ! (index c - 1)))) \<rparr>)
                 (commonEntries st);
             sorted_entries = qsort common_entry_cmp with_delta
         in place_common es m sorted_entries commonEntriesCount 0
              (st\<lparr> commonEntries := sorted_entries \<rparr>))
      else st)"

definition gist_tbox_picksplit :: "TBOX list \<Rightarrow> GIST_SPLITVEC" where
  "gist_tbox_picksplit es =
     (let maxoff = length es;
          nentries = int maxoff;
          context = picksplit_context es
      in
      if first context then tbox_fallbackSplit es
      else
        (let st0 = \<lparr> spl_left = [], spl_nleft = 0, spl_ldatum = None,
                     spl_right = [], spl_nright = 0, spl_rdatum = None,
                     leftBox = zero_TBOX, rightBox = zero_TBOX, commonEntries = [] \<rparr>;
             st1 = fold (distribute_entry context es) [FirstOffsetNumber ..< Suc maxoff] st0;
             st2 = distribute_common es nentries st1
         in GIST_SPLITVEC.truncate
              (st2\<lparr> spl_ldatum := Some (leftBox st2), spl_rdatum := Some (rightBox st2) \<rparr>)))"

subsection \<open>The candidates the scans consider\<close>

text \<open>
  The two scans hand their candidates to \<^verbatim>\<open>g_tbox_consider_split\<close> one by one. The same
  loops, collecting the arguments \<open>(rightLower, minLeftCount, leftUpper, maxLeftCount)\<close>
  of these calls in order, give the list of the candidates considered on an axis;
  \<open>candidate_min_count\<close> is \<^verbatim>\<open>Min(leftCount, rightCount)\<close> of a candidate, the numerator
  of its ratio.
\<close>

definition candidate_min_count :: "int \<Rightarrow> int \<Rightarrow> int \<Rightarrow> int" where
  "candidate_min_count n minLeftCount maxLeftCount =
     (let leftCount =
            (if minLeftCount \<ge> (n + 1) div 2 then minLeftCount
             else if maxLeftCount \<le> n div 2 then maxLeftCount
             else n div 2);
          rightCount = n - leftCount
      in min leftCount rightCount)"

text \<open>
  The ratio of a candidate as the quotient of the two counts, before it is rounded to a
  \<^verbatim>\<open>float4\<close>.
\<close>

definition candidate_ratio :: "int \<Rightarrow> int \<Rightarrow> int \<Rightarrow> real" where
  "candidate_ratio n minLeftCount maxLeftCount =
     real_of_int (candidate_min_count n minLeftCount maxLeftCount) / real_of_int n"

function scan_lower_candidates ::
  "SplitInterval list \<Rightarrow> SplitInterval list \<Rightarrow> int \<Rightarrow> int \<Rightarrow> int \<Rightarrow> float8 \<Rightarrow> float8
     \<Rightarrow> (float8 \<times> int \<times> float8 \<times> int) list" where
  "scan_lower_candidates intervalsLower intervalsUpper nentries i1 i2 rightLower' leftUpper' =
     (let r = next_lower_bound intervalsLower nentries rightLower' i1 leftUpper';
          i1n = fst r;
          leftUppern = snd r
      in
      if i1n \<ge> nentries then []
      else
        (let rightLowern = lower (intervalsLower ! nat i1n);
             i2n = count_left intervalsUpper nentries leftUppern i2
         in (rightLowern, i1n, leftUppern, i2n) #
            scan_lower_candidates intervalsLower intervalsUpper nentries
              i1n i2n rightLowern leftUppern))"
  by pat_completeness auto
termination
proof (relation "measure (\<lambda>(il, iu, n, i1, i2, rl, lu).
          2 * nat (n - i1) + (if i1 < n \<and> FLOAT8_EQ rl (lower (il ! nat i1)) then 0 else 1))",
       goal_cases)
  case 1
  show ?case by simp
next
  case (2 il iu n i1 i2 rl lu r i1n lun rln i2n)
  have mono: "i1 \<le> fst (next_lower_bound il n rl i1 lu)" for i1 lu
    by (induction il n rl i1 lu rule: next_lower_bound.induct)
       (subst next_lower_bound.simps, auto)
  have step: "i1 < fst (next_lower_bound il n rl i1 lu)"
    if "i1 < n" "FLOAT8_EQ rl (lower (il ! nat i1))"
  proof -
    let ?lu = "if FLOAT8_LT lu (upper (il ! nat i1)) then upper (il ! nat i1) else lu"
    have "next_lower_bound il n rl i1 lu = next_lower_bound il n rl (i1 + 1) ?lu"
      using that by (subst next_lower_bound.simps) simp
    moreover have "i1 + 1 \<le> fst (next_lower_bound il n rl (i1 + 1) ?lu)"
      by (rule mono)
    ultimately show ?thesis by simp
  qed
  have refl: "FLOAT8_EQ (lower (il ! nat i1n)) (lower (il ! nat i1n))"
    by (cases "lower (il ! nat i1n)")
       (auto simp: FLOAT8_EQ_def float8_cmp_internal_def f_gt_def)
  show ?case
  proof (cases "i1 < n \<and> FLOAT8_EQ rl (lower (il ! nat i1))")
    case True
    then have "i1 < i1n" using step 2 by simp
    then show ?thesis using 2 True refl by simp
  next
    case False
    have "i1 \<le> i1n" using mono 2 by simp
    then show ?thesis using 2 False refl by auto
  qed
qed

declare scan_lower_candidates.simps [simp del]

function scan_upper_candidates ::
  "SplitInterval list \<Rightarrow> SplitInterval list \<Rightarrow> int \<Rightarrow> int \<Rightarrow> float8 \<Rightarrow> float8
     \<Rightarrow> (float8 \<times> int \<times> float8 \<times> int) list" where
  "scan_upper_candidates intervalsLower intervalsUpper i1 i2 rightLower' leftUpper' =
     (let r = next_upper_bound intervalsUpper leftUpper' i2 rightLower';
          i2n = fst r;
          rightLowern = snd r
      in
      if i2n < 0 then []
      else
        (let leftUppern = upper (intervalsUpper ! nat i2n);
             i1n = count_right intervalsLower rightLowern i1
         in (rightLowern, i1n + 1, leftUppern, i2n + 1) #
            scan_upper_candidates intervalsLower intervalsUpper
              i1n i2n rightLowern leftUppern))"
  by pat_completeness auto
termination
proof (relation "measure (\<lambda>(il, iu, i1, i2, rl, lu).
          2 * nat (i2 + 1) + (if i2 \<ge> 0 \<and> FLOAT8_EQ lu (upper (iu ! nat i2)) then 0 else 1))",
       goal_cases)
  case 1
  show ?case by simp
next
  case (2 il iu i1 i2 rl lu r i2n rln lun i1n)
  have mono: "fst (next_upper_bound iu lu i2 rl) \<le> i2" for i2 rl
    by (induction iu lu i2 rl rule: next_upper_bound.induct)
       (subst next_upper_bound.simps, auto)
  have step: "fst (next_upper_bound iu lu i2 rl) < i2"
    if "i2 \<ge> 0" "FLOAT8_EQ lu (upper (iu ! nat i2))"
  proof -
    let ?rl = "if FLOAT8_GT rl (lower (iu ! nat i2)) then lower (iu ! nat i2) else rl"
    have "next_upper_bound iu lu i2 rl = next_upper_bound iu lu (i2 - 1) ?rl"
      using that by (subst next_upper_bound.simps) simp
    moreover have "fst (next_upper_bound iu lu (i2 - 1) ?rl) \<le> i2 - 1"
      by (rule mono)
    ultimately show ?thesis by simp
  qed
  have refl: "FLOAT8_EQ (upper (iu ! nat i2n)) (upper (iu ! nat i2n))"
    by (cases "upper (iu ! nat i2n)")
       (auto simp: FLOAT8_EQ_def float8_cmp_internal_def f_gt_def)
  show ?case
  proof (cases "i2 \<ge> 0 \<and> FLOAT8_EQ lu (upper (iu ! nat i2))")
    case True
    then have "i2n < i2" using step 2 by simp
    then show ?thesis using 2 True refl by simp
  next
    case False
    have "i2n \<le> i2" using mono 2 by simp
    then show ?thesis using 2 False refl by auto
  qed
qed

declare scan_upper_candidates.simps [simp del]

text \<open>The candidates of one axis: those of the first scan, then those of the second.\<close>

definition axis_candidates :: "TBOX list \<Rightarrow> int \<Rightarrow> (float8 \<times> int \<times> float8 \<times> int) list" where
  "axis_candidates es d =
     (let nentries = int (length es);
          intervals = map (project_interval d) es;
          intervalsLower = qsort interval_cmp_lower intervals;
          intervalsUpper = qsort interval_cmp_upper intervals
      in scan_lower_candidates intervalsLower intervalsUpper nentries 0 0
           (lower (intervalsLower ! 0)) (lower (intervalsUpper ! 0)) @
         scan_upper_candidates intervalsLower intervalsUpper
           (nentries - 1) (nentries - 1)
           (upper (intervalsLower ! nat (nentries - 1)))
           (upper (intervalsUpper ! nat (nentries - 1))))"

subsection \<open>The NaN-aware comparison is a linear order\<close>

instantiation float8 :: linorder
begin

definition less_eq_float8 :: "float8 \<Rightarrow> float8 \<Rightarrow> bool" where
  "less_eq_float8 a b = FLOAT8_LE a b"

definition less_float8 :: "float8 \<Rightarrow> float8 \<Rightarrow> bool" where
  "less_float8 a b = FLOAT8_LT a b"

instance
proof
  fix x y z :: float8
  show "(x < y) = (x \<le> y \<and> \<not> y \<le> x)"
    by (cases x; cases y)
       (auto simp: less_eq_float8_def less_float8_def FLOAT8_LE_def FLOAT8_LT_def
          float8_cmp_internal_def f_gt_def)
  show "x \<le> x"
    by (cases x)
       (auto simp: less_eq_float8_def FLOAT8_LE_def float8_cmp_internal_def f_gt_def)
  show "x \<le> y \<Longrightarrow> y \<le> z \<Longrightarrow> x \<le> z"
    by (cases x; cases y; cases z)
       (auto simp: less_eq_float8_def FLOAT8_LE_def float8_cmp_internal_def f_gt_def
          split: if_splits)
  show "x \<le> y \<Longrightarrow> y \<le> x \<Longrightarrow> x = y"
    by (cases x; cases y)
       (auto simp: less_eq_float8_def FLOAT8_LE_def float8_cmp_internal_def f_gt_def
          split: if_splits)
  show "x \<le> y \<or> y \<le> x"
    by (cases x; cases y)
       (auto simp: less_eq_float8_def FLOAT8_LE_def float8_cmp_internal_def f_gt_def)
qed

end

subsection \<open>The invariant of the selected split\<close>

text \<open>
  What the scans establish about the split they select, in terms of the entries projected
  on the selected axis: at least \<open>m = ceil(0.3 n)\<close> entries fit the left group, and the
  entries that fit only the left group leave room for \<open>m\<close> entries on the right.
\<close>

definition selected_split_ok :: "TBOX list \<Rightarrow> ConsiderSplitContext \<Rightarrow> bool" where
  "selected_split_ok es c =
     (entriesCount c = int (length es) \<and>
      (\<not> first c \<longrightarrow>
         ceil_LIMIT_RATIO (int (length es)) \<le>
           int (length (filter (\<lambda>iv. upper iv \<le> leftUpper c)
                  (map (project_interval (dim c)) es))) \<and>
         int (length (filter (\<lambda>iv. upper iv \<le> leftUpper c \<and> lower iv < rightLower c)
                (map (project_interval (dim c)) es))) +
           ceil_LIMIT_RATIO (int (length es)) \<le> int (length es)))"

section \<open>Properties\<close>

subsection \<open>The comparison macros in terms of the order\<close>

lemma FLOAT8_LE_iff: "FLOAT8_LE a b \<longleftrightarrow> a \<le> b"
  by (simp add: less_eq_float8_def)

lemma FLOAT8_LT_iff: "FLOAT8_LT a b \<longleftrightarrow> a < b"
  by (simp add: less_float8_def)

lemma FLOAT8_GE_iff: "FLOAT8_GE a b \<longleftrightarrow> b \<le> a"
  by (cases a; cases b)
     (auto simp: less_eq_float8_def FLOAT8_LE_def FLOAT8_GE_def float8_cmp_internal_def f_gt_def)

lemma FLOAT8_GT_iff: "FLOAT8_GT a b \<longleftrightarrow> b < a"
  by (cases a; cases b)
     (auto simp: less_float8_def FLOAT8_LT_def FLOAT8_GT_def float8_cmp_internal_def f_gt_def)

lemma FLOAT8_EQ_iff: "FLOAT8_EQ a b \<longleftrightarrow> a = b"
  by (cases a; cases b)
     (auto simp: FLOAT8_EQ_def float8_cmp_internal_def f_gt_def)

lemma FLOAT8_MAX_iff: "FLOAT8_MAX a b = max a b"
  by (auto simp: FLOAT8_MAX_def FLOAT8_GT_iff max_def)

lemma FLOAT8_MIN_iff: "FLOAT8_MIN a b = min a b"
  by (auto simp: FLOAT8_MIN_def FLOAT8_LT_iff min_def)

lemmas FLOAT8_order =
  FLOAT8_LE_iff FLOAT8_LT_iff FLOAT8_GE_iff FLOAT8_GT_iff FLOAT8_EQ_iff
  FLOAT8_MAX_iff FLOAT8_MIN_iff



lemma less_NaN_iff: "a < NaN \<longleftrightarrow> a \<noteq> NaN"
  by (cases a) (auto simp: less_float8_def FLOAT8_LT_def float8_cmp_internal_def f_gt_def)

lemma Fin_le_iff: "Fin a \<le> Fin b \<longleftrightarrow> a \<le> b"
  by (auto simp: less_eq_float8_def FLOAT8_LE_def float8_cmp_internal_def f_gt_def)

lemma Fin_less_iff: "Fin a < Fin b \<longleftrightarrow> a < b"
  by (auto simp: less_float8_def FLOAT8_LT_def float8_cmp_internal_def f_gt_def)

lemma native_le_agrees: "\<not> isnan a \<Longrightarrow> \<not> isnan b \<Longrightarrow> f_le a b \<longleftrightarrow> FLOAT8_LE a b"
  by (cases a; cases b)
     (auto simp: f_le_def f_eq_def FLOAT8_LE_def float8_cmp_internal_def f_gt_def)

lemma native_ge_agrees: "\<not> isnan a \<Longrightarrow> \<not> isnan b \<Longrightarrow> f_ge a b \<longleftrightarrow> FLOAT8_GE a b"
  by (cases a; cases b)
     (auto simp: f_ge_def f_le_def f_eq_def FLOAT8_GE_def float8_cmp_internal_def f_gt_def)


subsection \<open>Box arithmetic\<close>





text \<open>
  C7: the size of a union is at least the size of each box, and the penalty
  \<open>size(union(a,b)) - size(a)\<close> of valid boxes is not negative. The code breaks the
  second part where the original box has infinite size: for the box
  \<open>x:[0,+inf], t:[0,1]\<close> the penalty is \<open>inf - inf = NaN\<close>, against the comment of
  \<^verbatim>\<open>box_penalty\<close> ("the result can be +Infinity, but not NaN").
\<close>

theorem penalty_infinite_box_nan:
  "box_penalty \<lparr>xmin = Fin 0, tmin = Fin 0, xmax = PInf, tmax = Fin 1\<rparr>
               \<lparr>xmin = Fin 0, tmin = Fin 0, xmax = Fin 1, tmax = Fin 1\<rparr> = NaN \<and>
   \<not> f_ge (box_penalty \<lparr>xmin = Fin 0, tmin = Fin 0, xmax = PInf, tmax = Fin 1\<rparr>
               \<lparr>xmin = Fin 0, tmin = Fin 0, xmax = Fin 1, tmax = Fin 1\<rparr>) (Fin 0)"
  by (simp add: box_penalty_def rt_tbox_union_def size_tbox_def FLOAT8_MAX_def FLOAT8_MIN_def
      FLOAT8_GT_def FLOAT8_LT_def FLOAT8_LE_def float8_cmp_internal_def f_gt_def f_ge_def
      f_le_def f_eq_def)

subsection \<open>The consistency tables\<close>

text \<open>
  C1: for every key, query and strategy, the internal evaluation accepts whatever the leaf
  evaluation accepts. The code breaks it for the strategy Left on a key of zero width:
  with key \<open>x:[5,5]\<close> and query \<open>x:[5,10]\<close> the leaf test \<open>key.xmax <= query.xmin\<close>
  accepts, and the internal test \<open>\<not> OverRight(key, query)\<close> rejects.
\<close>

theorem internal_rejects_leaf_match_Left:
  "index_leaf_consistent_tbox
     \<lparr>xmin = Fin 5, tmin = Fin 0, xmax = Fin 5, tmax = Fin 1\<rparr>
     \<lparr>xmin = Fin 5, tmin = Fin 0, xmax = Fin 10, tmax = Fin 1\<rparr>
     RTLeftStrategyNumber = Inr True \<and>
   gist_internal_consistent_tbox
     \<lparr>xmin = Fin 5, tmin = Fin 0, xmax = Fin 5, tmax = Fin 1\<rparr>
     \<lparr>xmin = Fin 5, tmin = Fin 0, xmax = Fin 10, tmax = Fin 1\<rparr>
     RTLeftStrategyNumber = Inr False"
  by (simp add: f_le_def f_eq_def f_ge_def overright_tbox_tbox_internal_def)

text \<open>
  C5: at an internal node each directional strategy is the negation of its logical
  opposite (Left is not OverRight, OverLeft is not Right, Right is not OverLeft,
  OverRight is not Left, Before is not OverAfter, OverBefore is not After, After is not
  OverBefore, OverAfter is not Before); Overlap and ContainedBy both test box overlap;
  Contains and Same both test that the key contains the query.
\<close>

theorem internal_table:
  "gist_internal_consistent_tbox k q RTLeftStrategyNumber =
     Inr (\<not> overright_tbox_tbox_internal k q) \<and>
   gist_internal_consistent_tbox k q RTOverLeftStrategyNumber =
     Inr (\<not> right_tbox_tbox_internal k q) \<and>
   gist_internal_consistent_tbox k q RTRightStrategyNumber =
     Inr (\<not> overleft_tbox_tbox_internal k q) \<and>
   gist_internal_consistent_tbox k q RTOverRightStrategyNumber =
     Inr (\<not> left_tbox_tbox_internal k q) \<and>
   gist_internal_consistent_tbox k q RTBeforeStrategyNumber =
     Inr (\<not> overafter_tbox_tbox_internal k q) \<and>
   gist_internal_consistent_tbox k q RTOverBeforeStrategyNumber =
     Inr (\<not> after_tbox_tbox_internal k q) \<and>
   gist_internal_consistent_tbox k q RTAfterStrategyNumber =
     Inr (\<not> overbefore_tbox_tbox_internal k q) \<and>
   gist_internal_consistent_tbox k q RTOverAfterStrategyNumber =
     Inr (\<not> before_tbox_tbox_internal k q) \<and>
   gist_internal_consistent_tbox k q RTOverlapStrategyNumber =
     Inr (overlaps_tbox_tbox_internal k q) \<and>
   gist_internal_consistent_tbox k q RTContainedByStrategyNumber =
     Inr (overlaps_tbox_tbox_internal k q) \<and>
   gist_internal_consistent_tbox k q RTContainsStrategyNumber =
     Inr (contains_tbox_tbox_internal k q) \<and>
   gist_internal_consistent_tbox k q RTSameStrategyNumber =
     Inr (contains_tbox_tbox_internal k q)"
  by simp

text \<open>
  C6, as the claim states it, fails: the leaf test of Right is the native \<^verbatim>\<open>>=\<close>, so a
  key with \<open>xmin = NaN\<close> does not satisfy Right, although NaN is at least every value in
  the NaN-aware order.
\<close>

theorem leaf_right_nan_rejected:
  "FLOAT8_GE (xmin \<lparr>xmin = NaN, tmin = Fin 0, xmax = NaN, tmax = Fin 1\<rparr>)
             (xmax \<lparr>xmin = Fin 0, tmin = Fin 0, xmax = Fin 1, tmax = Fin 1\<rparr>) \<and>
   index_leaf_consistent_tbox \<lparr>xmin = NaN, tmin = Fin 0, xmax = NaN, tmax = Fin 1\<rparr>
      \<lparr>xmin = Fin 0, tmin = Fin 0, xmax = Fin 1, tmax = Fin 1\<rparr> RTRightStrategyNumber =
     Inr False"
  by (simp add: FLOAT8_GE_def float8_cmp_internal_def f_ge_def f_le_def f_eq_def)

text \<open>
  C6, amended: the leaf tests of Left, Right, Before and After compare the bounds with
  the native floating-point operators: Left is \<open>key.xmax <= query.xmin\<close>, Right is
  \<open>key.xmin >= query.xmax\<close>, Before is \<open>key.tmax <= query.tmin\<close>, After is
  \<open>key.tmin >= query.tmax\<close>. When neither compared bound is NaN the test agrees with the
  NaN-aware comparison; when one of them is NaN the test is false.
\<close>

theorem leaf_directional_native:
  "index_leaf_consistent_tbox k q RTLeftStrategyNumber = Inr (f_le (xmax k) (xmin q)) \<and>
   index_leaf_consistent_tbox k q RTRightStrategyNumber = Inr (f_ge (xmin k) (xmax q)) \<and>
   index_leaf_consistent_tbox k q RTBeforeStrategyNumber = Inr (f_le (tmax k) (tmin q)) \<and>
   index_leaf_consistent_tbox k q RTAfterStrategyNumber = Inr (f_ge (tmin k) (tmax q)) \<and>
   (\<not> isnan (xmax k) \<and> \<not> isnan (xmin q) \<longrightarrow>
      index_leaf_consistent_tbox k q RTLeftStrategyNumber =
        Inr (FLOAT8_LE (xmax k) (xmin q))) \<and>
   (\<not> isnan (xmin k) \<and> \<not> isnan (xmax q) \<longrightarrow>
      index_leaf_consistent_tbox k q RTRightStrategyNumber =
        Inr (FLOAT8_GE (xmin k) (xmax q))) \<and>
   (\<not> isnan (tmax k) \<and> \<not> isnan (tmin q) \<longrightarrow>
      index_leaf_consistent_tbox k q RTBeforeStrategyNumber =
        Inr (FLOAT8_LE (tmax k) (tmin q))) \<and>
   (\<not> isnan (tmin k) \<and> \<not> isnan (tmax q) \<longrightarrow>
      index_leaf_consistent_tbox k q RTAfterStrategyNumber =
        Inr (FLOAT8_GE (tmin k) (tmax q))) \<and>
   (isnan (xmax k) \<or> isnan (xmin q) \<longrightarrow>
      index_leaf_consistent_tbox k q RTLeftStrategyNumber = Inr False) \<and>
   (isnan (xmin k) \<or> isnan (xmax q) \<longrightarrow>
      index_leaf_consistent_tbox k q RTRightStrategyNumber = Inr False) \<and>
   (isnan (tmax k) \<or> isnan (tmin q) \<longrightarrow>
      index_leaf_consistent_tbox k q RTBeforeStrategyNumber = Inr False) \<and>
   (isnan (tmin k) \<or> isnan (tmax q) \<longrightarrow>
      index_leaf_consistent_tbox k q RTAfterStrategyNumber = Inr False)"
proof -
  have nan: "\<not> f_le a b" "\<not> f_ge a b" if "isnan a \<or> isnan b" for a b
    using that by (cases a; cases b; simp add: f_le_def f_ge_def f_eq_def)+
  show ?thesis
    by (simp add: native_le_agrees native_ge_agrees nan)
qed

theorem leaf_directional_native_witness:
  "index_leaf_consistent_tbox \<lparr>xmin = Fin 0, tmin = Fin 0, xmax = Fin 5, tmax = Fin 1\<rparr>
      \<lparr>xmin = Fin 5, tmin = Fin 2, xmax = Fin 10, tmax = Fin 3\<rparr> RTLeftStrategyNumber =
     Inr (FLOAT8_LE (Fin 5) (Fin 5)) \<and>
   index_leaf_consistent_tbox \<lparr>xmin = Fin 0, tmin = Fin 0, xmax = Fin 5, tmax = Fin 1\<rparr>
      \<lparr>xmin = Fin 5, tmin = Fin 2, xmax = Fin 10, tmax = Fin 3\<rparr> RTBeforeStrategyNumber =
     Inr (FLOAT8_LE (Fin 1) (Fin 2)) \<and>
   index_leaf_consistent_tbox \<lparr>xmin = NaN, tmin = Fin 0, xmax = NaN, tmax = Fin 1\<rparr>
      \<lparr>xmin = Fin 0, tmin = Fin 0, xmax = Fin 1, tmax = Fin 1\<rparr> RTRightStrategyNumber =
     Inr False"
  using leaf_directional_native
      [of "\<lparr>xmin = Fin 0, tmin = Fin 0, xmax = Fin 5, tmax = Fin 1\<rparr>"
          "\<lparr>xmin = Fin 5, tmin = Fin 2, xmax = Fin 10, tmax = Fin 3\<rparr>"]
    leaf_directional_native
      [of "\<lparr>xmin = NaN, tmin = Fin 0, xmax = NaN, tmax = Fin 1\<rparr>"
          "\<lparr>xmin = Fin 0, tmin = Fin 0, xmax = Fin 1, tmax = Fin 1\<rparr>"]
  by simp

subsection \<open>Consistent and compress\<close>

text \<open>
  C10: \<^verbatim>\<open>gist_tnumber_consistent\<close> leaves \<^verbatim>\<open>*recheck\<close> true on every call: at a leaf and at an
  internal node, for every strategy and subtype, when the key or the query is \<^verbatim>\<open>NULL\<close>,
  and when the call ends in an error.
\<close>

theorem consistent_sets_recheck:
  "fst (gist_tnumber_consistent ext entry arg1 strategy subtype recheck0) = True"
  by (simp add: gist_tnumber_consistent_def Let_def split: option.splits sum.splits)

lemma consistent_null_key:
  "DatumGetTboxP ext (key entry) = None \<Longrightarrow>
   gist_tnumber_consistent ext entry arg1 strategy subtype recheck0 = (True, Inr False)"
  by (simp add: gist_tnumber_consistent_def)

text \<open>
  C9: compress returns an entry that is already a box (one with \<open>leafkey\<close> false, as every
  internal entry is and as every entry compress has produced is) unchanged, so
  compressing twice is compressing once.
\<close>

theorem compress_idempotent:
  "(\<not> leafkey x \<longrightarrow> gist_tnumber_compress ext nobox x = x) \<and>
   \<not> leafkey (gist_tnumber_compress ext nobox y) \<and>
   gist_tnumber_compress ext nobox (gist_tnumber_compress ext nobox y) =
     gist_tnumber_compress ext nobox y"
  by (simp add: gist_tnumber_compress_def gistentryinit_def Let_def)


theorem compress_idempotent_witness:
  "\<not> leafkey \<lparr>key = Some \<lparr>xmin = Fin 0, tmin = Fin 0, xmax = Fin 1, tmax = Fin 1\<rparr>,
       rel = 1, page = 7, GIST_LEAF = False, offset = 3, leafkey = False\<rparr> \<and>
   gist_tnumber_compress
     \<lparr>DatumGetTboxP = (\<lambda>d. d), DatumGetRangeP = (\<lambda>d. None :: unit option),
      DatumGetTemporal = (\<lambda>d. d), PointerGetDatum = Some,
      type_oid = (\<lambda>t. case t of T_INTRANGE \<Rightarrow> 1 | T_FLOATRANGE \<Rightarrow> 2 | T_TBOX \<Rightarrow> 3),
      temporal_type_oid = (\<lambda>n. n = 4),
      intrange_to_tbox_internal = (\<lambda>r. \<lparr>xmin = Fin 0, tmin = Fin 0, xmax = Fin 0, tmax = Fin 0\<rparr>),
      floatrange_to_tbox_internal = (\<lambda>r. \<lparr>xmin = Fin 0, tmin = Fin 0, xmax = Fin 0, tmax = Fin 0\<rparr>),
      temporal_bbox = (\<lambda>t. t)\<rparr>
     \<lparr>xmin = Fin 0, tmin = Fin 0, xmax = Fin 0, tmax = Fin 0\<rparr>
     \<lparr>key = Some \<lparr>xmin = Fin 0, tmin = Fin 0, xmax = Fin 1, tmax = Fin 1\<rparr>,
       rel = 1, page = 7, GIST_LEAF = False, offset = 3, leafkey = False\<rparr> =
     \<lparr>key = Some \<lparr>xmin = Fin 0, tmin = Fin 0, xmax = Fin 1, tmax = Fin 1\<rparr>,
       rel = 1, page = 7, GIST_LEAF = False, offset = 3, leafkey = False\<rparr>"
  using compress_idempotent
    [of "\<lparr>key = Some \<lparr>xmin = Fin 0, tmin = Fin 0, xmax = Fin 1, tmax = Fin 1\<rparr>,
          rel = 1, page = 7, GIST_LEAF = False, offset = 3, leafkey = False\<rparr>"
        "\<lparr>DatumGetTboxP = (\<lambda>d. d), DatumGetRangeP = (\<lambda>d. None :: unit option),
      DatumGetTemporal = (\<lambda>d. d), PointerGetDatum = Some,
      type_oid = (\<lambda>t. case t of T_INTRANGE \<Rightarrow> 1 | T_FLOATRANGE \<Rightarrow> 2 | T_TBOX \<Rightarrow> 3),
      temporal_type_oid = (\<lambda>n. n = 4),
      intrange_to_tbox_internal = (\<lambda>r. \<lparr>xmin = Fin 0, tmin = Fin 0, xmax = Fin 0, tmax = Fin 0\<rparr>),
      floatrange_to_tbox_internal = (\<lambda>r. \<lparr>xmin = Fin 0, tmin = Fin 0, xmax = Fin 0, tmax = Fin 0\<rparr>),
      temporal_bbox = (\<lambda>t. t)\<rparr>"
        "\<lparr>xmin = Fin 0, tmin = Fin 0, xmax = Fin 0, tmax = Fin 0\<rparr>"]
  by simp


subsection \<open>The split: sorting and counting\<close>

lemma mset_qsort_insert: "mset (qsort_insert cmp x xs) = add_mset x (mset xs)"
  by (induction xs) auto

lemma mset_qsort: "mset (qsort cmp xs) = mset xs"
  by (induction xs) (auto simp: qsort_def mset_qsort_insert)

lemma length_qsort: "length (qsort cmp xs) = length xs"
  by (metis mset_qsort size_mset)

lemma set_qsort_insert: "set (qsort_insert cmp x xs) = insert x (set xs)"
  by (metis mset_qsort_insert set_mset_add_mset_insert set_mset_mset)

lemma sorted_qsort_insert:
  fixes f :: "'a \<Rightarrow> 'b::linorder"
  assumes "\<And>a b. cmp a b \<le> 0 \<longleftrightarrow> f a \<le> f b"
  shows "sorted (map f xs) \<Longrightarrow> sorted (map f (qsort_insert cmp x xs))"
  by (induction xs) (auto simp: assms set_qsort_insert)

lemma sorted_qsort:
  fixes f :: "'a \<Rightarrow> 'b::linorder"
  assumes "\<And>a b. cmp a b \<le> 0 \<longleftrightarrow> f a \<le> f b"
  shows "sorted (map f (qsort cmp xs))"
proof (induction xs)
  case Nil
  show ?case by (simp add: qsort_def)
next
  case (Cons x xs)
  then show ?case
    using sorted_qsort_insert [of cmp f "qsort cmp xs" x] assms
    by (simp add: qsort_def)
qed

lemma sorted_qsort_lower: "sorted (map lower (qsort interval_cmp_lower xs))"
  by (rule sorted_qsort) (simp add: interval_cmp_lower_def FLOAT8_LE_iff [symmetric] FLOAT8_LE_def)

lemma sorted_qsort_upper: "sorted (map upper (qsort interval_cmp_upper xs))"
  by (rule sorted_qsort) (simp add: interval_cmp_upper_def FLOAT8_LE_iff [symmetric] FLOAT8_LE_def)

subsection \<open>Counting\<close>

lemma count_filter_mset_eq:
  "mset xs = mset ys \<Longrightarrow> length (filter P xs) = length (filter P ys)"
  by (metis mset_filter size_mset)

lemma count_filter_prefix:
  assumes "k \<le> length xs" "\<forall>j<k. P (xs ! j)" "\<forall>j. k \<le> j \<and> j < length xs \<longrightarrow> \<not> P (xs ! j)"
  shows "length (filter P xs) = k"
proof -
  have a: "filter P (take k xs) = take k xs"
    using assms(1,2) by (auto simp: filter_id_conv in_set_conv_nth)
  have b: "filter P (drop k xs) = []"
    using assms(1,3) by (auto simp: filter_empty_conv in_set_conv_nth)
  have "filter P xs = filter P (take k xs) @ filter P (drop k xs)"
    by (metis append_take_drop_id filter_append)
  then show ?thesis using a b assms(1) by simp
qed

lemma count_filter_mono:
  "(\<And>x. x \<in> set xs \<Longrightarrow> P x \<Longrightarrow> Q x) \<Longrightarrow> length (filter P xs) \<le> length (filter Q xs)"
  by (induction xs) auto

subsection \<open>The trivial split\<close>

lemma fallback_half: "(maxoff - FirstOffsetNumber + 1) div 2 = maxoff div 2"
  by (cases maxoff) (auto simp: FirstOffsetNumber_def)

lemma fallback_fold:
  "spl_left (fold (tbox_fallbackSplit_step es maxoff) is v) =
     spl_left v @ filter (\<lambda>i. i \<le> maxoff div 2) is \<and>
   spl_right (fold (tbox_fallbackSplit_step es maxoff) is v) =
     spl_right v @ filter (\<lambda>i. \<not> i \<le> maxoff div 2) is \<and>
   spl_nleft (fold (tbox_fallbackSplit_step es maxoff) is v) =
     spl_nleft v + int (length (filter (\<lambda>i. i \<le> maxoff div 2) is)) \<and>
   spl_nright (fold (tbox_fallbackSplit_step es maxoff) is v) =
     spl_nright v + int (length (filter (\<lambda>i. \<not> i \<le> maxoff div 2) is))"
proof -
  have step: "tbox_fallbackSplit_step es maxoff i v =
     (if i \<le> maxoff div 2 then
        v\<lparr> spl_left := spl_left v @ [i],
           spl_ldatum := (case spl_ldatum v of None \<Rightarrow> Some (es ! (i - 1))
                          | Some unionL \<Rightarrow> Some (adjustBox unionL (es ! (i - 1)))),
           spl_nleft := spl_nleft v + 1 \<rparr>
      else
        v\<lparr> spl_right := spl_right v @ [i],
           spl_rdatum := (case spl_rdatum v of None \<Rightarrow> Some (es ! (i - 1))
                          | Some unionR \<Rightarrow> Some (adjustBox unionR (es ! (i - 1)))),
           spl_nright := spl_nright v + 1 \<rparr>)" for i v
    unfolding tbox_fallbackSplit_step_def fallback_half Let_def ..
  show ?thesis
    by (induction "is" arbitrary: v) (simp_all add: step)
qed

lemma filter_le_upt: "h \<le> n \<Longrightarrow> filter (\<lambda>i. i \<le> h) [1 ..< Suc n] = [1 ..< Suc h]"
proof (induction n)
  case 0
  then show ?case by simp
next
  case (Suc n)
  show ?case
  proof (cases "h = Suc n")
    case True
    have "filter (\<lambda>i. i \<le> Suc n) [1 ..< Suc (Suc n)] = [1 ..< Suc (Suc n)]"
      by (auto simp: filter_id_conv)
    then show ?thesis using True by simp
  next
    case False
    with Suc.prems have "h \<le> n" by simp
    with Suc.IH show ?thesis using False by simp
  qed
qed

lemma filter_gt_upt: "h \<le> n \<Longrightarrow> filter (\<lambda>i. \<not> i \<le> h) [1 ..< Suc n] = [Suc h ..< Suc n]"
proof (induction n)
  case 0
  then show ?case by simp
next
  case (Suc n)
  show ?case
  proof (cases "h = Suc n")
    case True
    have "filter (\<lambda>i. \<not> i \<le> Suc n) [1 ..< Suc (Suc n)] = []"
      by (auto simp: filter_empty_conv)
    then show ?thesis using True by simp
  next
    case False
    with Suc.prems have "h \<le> n" by simp
    with Suc.IH show ?thesis using False by simp
  qed
qed

lemma tbox_fallbackSplit_halves:
  "spl_left (tbox_fallbackSplit es) = [1 ..< Suc (length es div 2)] \<and>
   spl_right (tbox_fallbackSplit es) = [Suc (length es div 2) ..< Suc (length es)] \<and>
   spl_nleft (tbox_fallbackSplit es) = int (length es div 2) \<and>
   spl_nright (tbox_fallbackSplit es) = int (length es - length es div 2)"
proof -
  have h: "length es div 2 \<le> length es" by simp
  show ?thesis
    unfolding tbox_fallbackSplit_def Let_def FirstOffsetNumber_def
    by (simp only: fallback_fold filter_le_upt [OF h] filter_gt_upt [OF h])
       (simp add: of_nat_diff del: upt_Suc)
qed

lemma picksplit_first_halves:
  "first (picksplit_context es) \<Longrightarrow>
   gist_tbox_picksplit es = tbox_fallbackSplit es \<and>
   spl_left (gist_tbox_picksplit es) = [1 ..< Suc (length es div 2)] \<and>
   spl_right (gist_tbox_picksplit es) = [Suc (length es div 2) ..< Suc (length es)] \<and>
   spl_nleft (gist_tbox_picksplit es) = int (length es div 2) \<and>
   spl_nright (gist_tbox_picksplit es) = int (length es - length es div 2)"
  using tbox_fallbackSplit_halves [of es] by (simp add: gist_tbox_picksplit_def Let_def)

text \<open>
  \<open>context.first\<close> stays true exactly as long as no candidate passes the ratio test, and
  on every node size that can occur the test is \<open>3 * n \<le> 10 * count\<close>.
\<close>

lemma first_consider_split:
  "first (g_tbox_consider_split c d rl mn lu mx) \<longleftrightarrow>
   first c \<and>
   \<not> ratio_gt_LIMIT_RATIO
       (min (if mn \<ge> (entriesCount c + 1) div 2 then mn
             else if mx \<le> entriesCount c div 2 then mx else entriesCount c div 2)
            (entriesCount c -
             (if mn \<ge> (entriesCount c + 1) div 2 then mn
              else if mx \<le> entriesCount c div 2 then mx else entriesCount c div 2)))
       (entriesCount c)"
  unfolding g_tbox_consider_split_def Let_def
  by (cases "first c") simp_all

lemma ratio_gt_LIMIT_RATIO_iff:
  "0 < n \<Longrightarrow> n < 33554432 \<Longrightarrow> ratio_gt_LIMIT_RATIO k n \<longleftrightarrow> 3 * n \<le> 10 * k"
  unfolding ratio_gt_LIMIT_RATIO_def by linarith

lemma ratio_gt_LIMIT_RATIO_ceil:
  assumes "ratio_gt_LIMIT_RATIO k n" "n < 33554432"
  shows "ceil_LIMIT_RATIO n \<le> k"
proof -
  have "3 * n \<le> 10 * k"
    using assms unfolding ratio_gt_LIMIT_RATIO_def by linarith
  then show ?thesis
    unfolding ceil_LIMIT_RATIO_def by linarith
qed

lemma ceil_LIMIT_RATIO_eq: "ceil_LIMIT_RATIO n = \<lceil>3 / 10 * real_of_int n\<rceil>"
proof -
  let ?m = "(3 * n + 9) div 10"
  have a: "3 * n \<le> 10 * ?m" by linarith
  have b: "10 * ?m < 3 * n + 10" by linarith
  have "real_of_int ?m - 1 < 3 / 10 * real_of_int n"
  proof -
    have "real_of_int (10 * ?m) < real_of_int (3 * n + 10)" using b by (simp only: of_int_less_iff)
    then show ?thesis by simp
  qed
  moreover have "3 / 10 * real_of_int n \<le> real_of_int ?m"
  proof -
    have "real_of_int (3 * n) \<le> real_of_int (10 * ?m)" using a by (simp only: of_int_le_iff)
    then show ?thesis by simp
  qed
  ultimately have "\<lceil>3 / 10 * real_of_int n\<rceil> = ?m"
    by (rule ceiling_unique)
  then show ?thesis by (simp add: ceil_LIMIT_RATIO_def)
qed



subsection \<open>Distributing the entries\<close>

lemma PLACE_LEFT_fields [simp]:
  "spl_left (PLACE_LEFT box off st) = spl_left st @ [off]"
  "spl_right (PLACE_LEFT box off st) = spl_right st"
  "spl_nleft (PLACE_LEFT box off st) = spl_nleft st + 1"
  "spl_nright (PLACE_LEFT box off st) = spl_nright st"
  "commonEntries (PLACE_LEFT box off st) = commonEntries st"
  by (simp_all add: PLACE_LEFT_def)

lemma PLACE_RIGHT_fields [simp]:
  "spl_left (PLACE_RIGHT box off st) = spl_left st"
  "spl_right (PLACE_RIGHT box off st) = spl_right st @ [off]"
  "spl_nleft (PLACE_RIGHT box off st) = spl_nleft st"
  "spl_nright (PLACE_RIGHT box off st) = spl_nright st + 1"
  "commonEntries (PLACE_RIGHT box off st) = commonEntries st"
  by (simp_all add: PLACE_RIGHT_def)

lemma distribute_entry_alt:
  "distribute_entry c es i st =
     (if upper (project_interval (dim c) (es ! (i - 1))) \<le> leftUpper c then
        (if rightLower c \<le> lower (project_interval (dim c) (es ! (i - 1)))
         then st\<lparr> commonEntries := commonEntries st @ [\<lparr> index = i, delta = Fin 0 \<rparr>] \<rparr>
         else PLACE_LEFT (es ! (i - 1)) i st)
      else PLACE_RIGHT (es ! (i - 1)) i st)"
  by (simp add: distribute_entry_def project_interval_def Let_def FLOAT8_order)

lemma distribute_entry_fold:
  fixes c :: ConsiderSplitContext and es :: "TBOX list"
  defines "iv \<equiv> \<lambda>i. project_interval (dim c) (es ! (i - 1))"
  shows
  "spl_left (fold (distribute_entry c es) is st) =
     spl_left st @ filter (\<lambda>i. upper (iv i) \<le> leftUpper c \<and> lower (iv i) < rightLower c) is \<and>
   spl_right (fold (distribute_entry c es) is st) =
     spl_right st @ filter (\<lambda>i. \<not> upper (iv i) \<le> leftUpper c) is \<and>
   map index (commonEntries (fold (distribute_entry c es) is st)) =
     map index (commonEntries st) @
     filter (\<lambda>i. upper (iv i) \<le> leftUpper c \<and> \<not> lower (iv i) < rightLower c) is \<and>
   spl_nleft (fold (distribute_entry c es) is st) =
     spl_nleft st +
     int (length (filter (\<lambda>i. upper (iv i) \<le> leftUpper c \<and> lower (iv i) < rightLower c) is)) \<and>
   spl_nright (fold (distribute_entry c es) is st) =
     spl_nright st + int (length (filter (\<lambda>i. \<not> upper (iv i) \<le> leftUpper c) is))"
  unfolding iv_def
  by (induction "is" arbitrary: st) (simp_all add: distribute_entry_alt not_less)

lemma mset_three_way:
  "mset (filter (\<lambda>i. A i \<and> B i) xs) + mset (filter (\<lambda>i. \<not> A i) xs) +
   mset (filter (\<lambda>i. A i \<and> \<not> B i) xs) = mset xs"
  by (induction xs) auto

lemma place_common_props:
  "n = int (length entries) \<Longrightarrow> 0 \<le> i \<Longrightarrow>
   mset (spl_left (place_common es m entries n i st) @
         spl_right (place_common es m entries n i st)) =
     mset (spl_left st @ spl_right st) + mset (map index (drop (nat i) entries)) \<and>
   spl_nleft (place_common es m entries n i st) -
     int (length (spl_left (place_common es m entries n i st))) =
     spl_nleft st - int (length (spl_left st)) \<and>
   spl_nright (place_common es m entries n i st) -
     int (length (spl_right (place_common es m entries n i st))) =
     spl_nright st - int (length (spl_right st))"
proof (induction es m entries n i st rule: place_common.induct)
  case (1 es m entries n i st)
  show ?case
  proof (cases "i < n")
    case False
    then have "drop (nat i) entries = []" using "1.prems" by simp
    moreover have "place_common es m entries n i st = st"
      using False by (subst place_common.simps) simp
    ultimately show ?thesis by simp
  next
    case True
    define off where "off = index (entries ! nat i)"
    define box where "box = es ! (off - 1)"
    define st2 where "st2 =
      (if spl_nleft st + (n - i) \<le> m then PLACE_LEFT box off st
       else if spl_nright st + (n - i) \<le> m then PLACE_RIGHT box off st
       else if f_lt (box_penalty (leftBox st) box) (box_penalty (rightBox st) box)
       then PLACE_LEFT box off st
       else PLACE_RIGHT box off st)"
    have unfold: "place_common es m entries n i st = place_common es m entries n (i + 1) st2"
      using True by (subst place_common.simps) (simp add: Let_def off_def box_def st2_def)
    have IH: "mset (spl_left (place_common es m entries n (i + 1) st2) @
         spl_right (place_common es m entries n (i + 1) st2)) =
     mset (spl_left st2 @ spl_right st2) + mset (map index (drop (nat (i + 1)) entries)) \<and>
   spl_nleft (place_common es m entries n (i + 1) st2) -
     int (length (spl_left (place_common es m entries n (i + 1) st2))) =
     spl_nleft st2 - int (length (spl_left st2)) \<and>
   spl_nright (place_common es m entries n (i + 1) st2) -
     int (length (spl_right (place_common es m entries n (i + 1) st2))) =
     spl_nright st2 - int (length (spl_right st2))"
      using "1.IH" [OF True off_def box_def] "1.prems" unfolding st2_def by simp
    have "nat i < length entries" using True "1.prems" by simp
    then have drop: "drop (nat i) entries = entries ! nat i # drop (nat (i + 1)) entries"
      using "1.prems" by (simp add: Cons_nth_drop_Suc nat_add_distrib)
    have st2:
      "mset (spl_left st2 @ spl_right st2) = add_mset off (mset (spl_left st @ spl_right st))"
      "spl_nleft st2 - int (length (spl_left st2)) = spl_nleft st - int (length (spl_left st))"
      "spl_nright st2 - int (length (spl_right st2)) = spl_nright st - int (length (spl_right st))"
      by (simp_all add: st2_def)
    show ?thesis
      unfolding unfold using IH drop st2 by (simp add: off_def)
  qed
qed


lemma place_common_fill:
  "0 \<le> i \<Longrightarrow> i \<le> n \<Longrightarrow> m \<le> spl_nleft st + (n - i) \<Longrightarrow> m \<le> spl_nright st + (n - i) \<Longrightarrow>
   2 * m \<le> spl_nleft st + spl_nright st + (n - i) \<Longrightarrow>
   m \<le> spl_nleft (place_common es m entries n i st) \<and>
   m \<le> spl_nright (place_common es m entries n i st)"
proof (induction es m entries n i st rule: place_common.induct)
  case (1 es m entries n i st)
  show ?case
  proof (cases "i < n")
    case False
    then have "place_common es m entries n i st = st"
      by (subst place_common.simps) simp
    then show ?thesis using False "1.prems" by simp
  next
    case True
    define off where "off = index (entries ! nat i)"
    define box where "box = es ! (off - 1)"
    define st2 where "st2 =
      (if spl_nleft st + (n - i) \<le> m then PLACE_LEFT box off st
       else if spl_nright st + (n - i) \<le> m then PLACE_RIGHT box off st
       else if f_lt (box_penalty (leftBox st) box) (box_penalty (rightBox st) box)
       then PLACE_LEFT box off st
       else PLACE_RIGHT box off st)"
    have unfold: "place_common es m entries n i st = place_common es m entries n (i + 1) st2"
      using True by (subst place_common.simps) (simp add: Let_def off_def box_def st2_def)
    have pre: "m \<le> spl_nleft st2 + (n - (i + 1))" "m \<le> spl_nright st2 + (n - (i + 1))"
      "2 * m \<le> spl_nleft st2 + spl_nright st2 + (n - (i + 1))"
      using "1.prems" True by (auto simp: st2_def)
    have "m \<le> spl_nleft (place_common es m entries n (i + 1) st2) \<and>
          m \<le> spl_nright (place_common es m entries n (i + 1) st2)"
      using "1.IH" [OF True off_def box_def] pre "1.prems" True unfolding st2_def by simp
    then show ?thesis unfolding unfold .
  qed
qed

lemma map_index_delta:
  "map index (map (\<lambda>c. c\<lparr> delta := f c \<rparr>) cs) = map index cs"
  by (induction cs) auto

lemma distribute_common_props:
  "mset (spl_left (distribute_common es nentries st) @
         spl_right (distribute_common es nentries st)) =
     mset (spl_left st @ spl_right st) + mset (map index (commonEntries st)) \<and>
   spl_nleft (distribute_common es nentries st) -
     int (length (spl_left (distribute_common es nentries st))) =
     spl_nleft st - int (length (spl_left st)) \<and>
   spl_nright (distribute_common es nentries st) -
     int (length (spl_right (distribute_common es nentries st))) =
     spl_nright st - int (length (spl_right st))"
proof (cases "commonEntries st = []")
  case True
  then show ?thesis by (simp add: distribute_common_def)
next
  case False
  define srt where "srt = qsort common_entry_cmp
     (map (\<lambda>c. c\<lparr> delta :=
                      Abs (fsub (box_penalty (leftBox st) (es ! (index c - 1)))
                                (box_penalty (rightBox st) (es ! (index c - 1)))) \<rparr>)
                 (commonEntries st))"
  have len: "length srt = length (commonEntries st)"
    by (simp add: srt_def length_qsort)
  have ms: "mset (map index srt) = mset (map index (commonEntries st))"
    unfolding srt_def
    by (simp add: mset_qsort multiset.map_comp comp_def)
  have eq: "distribute_common es nentries st =
     place_common es (ceil_LIMIT_RATIO nentries) srt (int (length srt)) 0
       (st\<lparr> commonEntries := srt \<rparr>)"
    unfolding distribute_common_def Let_def srt_def [symmetric]
    using False by (simp add: len)
  show ?thesis
    unfolding eq
    using place_common_props [of "int (length srt)" srt 0 es "ceil_LIMIT_RATIO nentries"
        "st\<lparr> commonEntries := srt \<rparr>"] ms
    by simp
qed

lemma distribute_common_fill:
  assumes "m = ceil_LIMIT_RATIO nentries"
    and "m \<le> spl_nleft st + int (length (commonEntries st))"
    and "m \<le> spl_nright st + int (length (commonEntries st))"
    and "2 * m \<le> spl_nleft st + spl_nright st + int (length (commonEntries st))"
  shows "m \<le> spl_nleft (distribute_common es nentries st) \<and>
         m \<le> spl_nright (distribute_common es nentries st)"
proof (cases "commonEntries st = []")
  case True
  then show ?thesis using assms by (simp add: distribute_common_def)
next
  case False
  define srt where "srt = qsort common_entry_cmp
     (map (\<lambda>c. c\<lparr> delta :=
                      Abs (fsub (box_penalty (leftBox st) (es ! (index c - 1)))
                                (box_penalty (rightBox st) (es ! (index c - 1)))) \<rparr>)
                 (commonEntries st))"
  have len: "length srt = length (commonEntries st)"
    by (simp add: srt_def length_qsort)
  have eq: "distribute_common es nentries st =
     place_common es m srt (int (length srt)) 0 (st\<lparr> commonEntries := srt \<rparr>)"
    unfolding distribute_common_def Let_def srt_def [symmetric]
    using False by (simp add: len assms(1))
  show ?thesis
    unfolding eq
    using place_common_fill [of 0 "int (length srt)" m "st\<lparr> commonEntries := srt \<rparr>" es srt]
      assms(2-4) len
    by simp
qed

lemma nth_offsets: "map (\<lambda>i. es ! (i - 1)) [1 ..< Suc (length es)] = es"
  by (rule nth_equalityI) (auto simp del: upt_Suc)

lemma picksplit_split_state:
  assumes "\<not> first (picksplit_context es)"
  defines "c \<equiv> picksplit_context es"
  defines "st1 \<equiv> fold (distribute_entry c es) [FirstOffsetNumber ..< Suc (length es)]
             \<lparr> spl_left = [], spl_nleft = 0, spl_ldatum = None,
               spl_right = [], spl_nright = 0, spl_rdatum = None,
               leftBox = zero_TBOX, rightBox = zero_TBOX, commonEntries = [] \<rparr>"
  defines "st2 \<equiv> distribute_common es (int (length es)) st1"
  shows "spl_left (gist_tbox_picksplit es) = spl_left st2"
    and "spl_right (gist_tbox_picksplit es) = spl_right st2"
    and "spl_nleft (gist_tbox_picksplit es) = spl_nleft st2"
    and "spl_nright (gist_tbox_picksplit es) = spl_nright st2"
  using assms(1)
  by (simp_all add: gist_tbox_picksplit_def Let_def c_def st1_def st2_def
      GIST_SPLITVEC.truncate_def)



subsection \<open>The scans\<close>

lemma next_lower_bound_props:
  "0 \<le> i1 \<Longrightarrow> i1 \<le> n \<Longrightarrow>
   i1 \<le> fst (next_lower_bound il n rl i1 lu) \<and>
   fst (next_lower_bound il n rl i1 lu) \<le> n \<and>
   lu \<le> snd (next_lower_bound il n rl i1 lu) \<and>
   (\<forall>j. i1 \<le> int j \<and> int j < fst (next_lower_bound il n rl i1 lu) \<longrightarrow>
        lower (il ! j) = rl \<and> upper (il ! j) \<le> snd (next_lower_bound il n rl i1 lu)) \<and>
   (fst (next_lower_bound il n rl i1 lu) < n \<longrightarrow>
        lower (il ! nat (fst (next_lower_bound il n rl i1 lu))) \<noteq> rl)"
proof (induction il n rl i1 lu rule: next_lower_bound.induct)
  case (1 il n rl i1 lu)
  show ?case
  proof (cases "i1 < n \<and> FLOAT8_EQ rl (lower (il ! nat i1))")
    case False
    then have "next_lower_bound il n rl i1 lu = (i1, lu)"
      by (subst next_lower_bound.simps) (simp only: False if_False)
    then show ?thesis using False "1.prems" by (auto simp: FLOAT8_order)
  next
    case True
    define lu2 where
      "lu2 = (if FLOAT8_LT lu (upper (il ! nat i1)) then upper (il ! nat i1) else lu)"
    define r where "r = next_lower_bound il n rl (i1 + 1) lu2"
    have unfold: "next_lower_bound il n rl i1 lu = r"
      using True by (subst next_lower_bound.simps) (simp add: lu2_def r_def)
    have IH: "i1 + 1 \<le> fst r" "fst r \<le> n" "lu2 \<le> snd r"
      "\<And>j. i1 + 1 \<le> int j \<Longrightarrow> int j < fst r \<Longrightarrow>
          lower (il ! j) = rl \<and> upper (il ! j) \<le> snd r"
      "fst r < n \<Longrightarrow> lower (il ! nat (fst r)) \<noteq> rl"
      using "1.IH" [OF True] "1.prems" True unfolding lu2_def r_def by auto
    have lu2: "lu \<le> lu2" "upper (il ! nat i1) \<le> lu2"
      by (auto simp: lu2_def FLOAT8_order)
    have here: "lower (il ! nat i1) = rl"
      using True by (simp add: FLOAT8_order)
    have all: "lower (il ! j) = rl \<and> upper (il ! j) \<le> snd r"
      if "i1 \<le> int j" "int j < fst r" for j
    proof (cases "int j = i1")
      case True
      then have "j = nat i1" by simp
      then show ?thesis using here lu2 IH(3) by auto
    next
      case False
      then show ?thesis using that IH(4) by simp
    qed
    show ?thesis
      unfolding unfold using IH(1,2,3,5) lu2 all by auto
  qed
qed

lemma count_left_props:
  "0 \<le> i2 \<Longrightarrow> i2 \<le> n \<Longrightarrow>
   i2 \<le> count_left iu n lu i2 \<and> count_left iu n lu i2 \<le> n \<and>
   (\<forall>j. i2 \<le> int j \<and> int j < count_left iu n lu i2 \<longrightarrow> upper (iu ! j) \<le> lu) \<and>
   (count_left iu n lu i2 < n \<longrightarrow> \<not> upper (iu ! nat (count_left iu n lu i2)) \<le> lu)"
proof (induction iu n lu i2 rule: count_left.induct)
  case (1 iu n lu i2)
  show ?case
  proof (cases "i2 < n \<and> FLOAT8_LE (upper (iu ! nat i2)) lu")
    case False
    then have "count_left iu n lu i2 = i2"
      by (subst count_left.simps) (simp only: False if_False)
    then show ?thesis using False "1.prems" by (auto simp: FLOAT8_order)
  next
    case True
    define r where "r = count_left iu n lu (i2 + 1)"
    have unfold: "count_left iu n lu i2 = r"
      using True by (subst count_left.simps) (simp add: r_def)
    have IH: "i2 + 1 \<le> r" "r \<le> n"
      "\<And>j. i2 + 1 \<le> int j \<Longrightarrow> int j < r \<Longrightarrow> upper (iu ! j) \<le> lu"
      "r < n \<Longrightarrow> \<not> upper (iu ! nat r) \<le> lu"
      using "1.IH" [OF True] "1.prems" True unfolding r_def by auto
    have here: "upper (iu ! nat i2) \<le> lu"
      using True by (simp add: FLOAT8_order)
    have all: "upper (iu ! j) \<le> lu" if "i2 \<le> int j" "int j < r" for j
    proof (cases "int j = i2")
      case True
      then have "j = nat i2" by simp
      then show ?thesis using here by simp
    next
      case False
      then show ?thesis using that IH(3) by simp
    qed
    show ?thesis
      unfolding unfold using IH(1,2,4) all by auto
  qed
qed

lemma next_upper_bound_props:
  "- 1 \<le> i2 \<Longrightarrow>
   fst (next_upper_bound iu lu i2 rl) \<le> i2 \<and>
   - 1 \<le> fst (next_upper_bound iu lu i2 rl) \<and>
   snd (next_upper_bound iu lu i2 rl) \<le> rl \<and>
   (\<forall>j. fst (next_upper_bound iu lu i2 rl) < int j \<and> int j \<le> i2 \<longrightarrow>
        upper (iu ! j) = lu \<and> snd (next_upper_bound iu lu i2 rl) \<le> lower (iu ! j)) \<and>
   (0 \<le> fst (next_upper_bound iu lu i2 rl) \<longrightarrow>
        upper (iu ! nat (fst (next_upper_bound iu lu i2 rl))) \<noteq> lu)"
proof (induction iu lu i2 rl rule: next_upper_bound.induct)
  case (1 iu lu i2 rl)
  show ?case
  proof (cases "i2 \<ge> 0 \<and> FLOAT8_EQ lu (upper (iu ! nat i2))")
    case False
    then have "next_upper_bound iu lu i2 rl = (i2, rl)"
      by (subst next_upper_bound.simps) (simp only: False if_False)
    then show ?thesis using False "1.prems" by (auto simp: FLOAT8_order)
  next
    case True
    define rl2 where
      "rl2 = (if FLOAT8_GT rl (lower (iu ! nat i2)) then lower (iu ! nat i2) else rl)"
    define r where "r = next_upper_bound iu lu (i2 - 1) rl2"
    have unfold: "next_upper_bound iu lu i2 rl = r"
      using True by (subst next_upper_bound.simps) (simp add: rl2_def r_def)
    have IH: "fst r \<le> i2 - 1" "- 1 \<le> fst r" "snd r \<le> rl2"
      "\<And>j. fst r < int j \<Longrightarrow> int j \<le> i2 - 1 \<Longrightarrow>
          upper (iu ! j) = lu \<and> snd r \<le> lower (iu ! j)"
      "0 \<le> fst r \<Longrightarrow> upper (iu ! nat (fst r)) \<noteq> lu"
      using "1.IH" [OF True] "1.prems" True unfolding rl2_def r_def by auto
    have rl2: "rl2 \<le> rl" "rl2 \<le> lower (iu ! nat i2)"
      by (auto simp: rl2_def FLOAT8_order)
    have here: "upper (iu ! nat i2) = lu"
      using True by (simp add: FLOAT8_order)
    have all: "upper (iu ! j) = lu \<and> snd r \<le> lower (iu ! j)"
      if "fst r < int j" "int j \<le> i2" for j
    proof (cases "int j = i2")
      case True
      then have "j = nat i2" by simp
      then show ?thesis using here rl2 IH(3) by auto
    next
      case False
      then show ?thesis using that IH(4) by simp
    qed
    show ?thesis
      unfolding unfold using IH(1,2,3,5) rl2 all by auto
  qed
qed

lemma count_right_props:
  "- 1 \<le> i1 \<Longrightarrow>
   count_right il rl i1 \<le> i1 \<and> - 1 \<le> count_right il rl i1 \<and>
   (\<forall>j. count_right il rl i1 < int j \<and> int j \<le> i1 \<longrightarrow> rl \<le> lower (il ! j)) \<and>
   (0 \<le> count_right il rl i1 \<longrightarrow> lower (il ! nat (count_right il rl i1)) < rl)"
proof (induction il rl i1 rule: count_right.induct)
  case (1 il rl i1)
  show ?case
  proof (cases "i1 \<ge> 0 \<and> FLOAT8_GE (lower (il ! nat i1)) rl")
    case False
    then have "count_right il rl i1 = i1"
      by (subst count_right.simps) (simp only: False if_False)
    then show ?thesis using False "1.prems" by (auto simp: FLOAT8_order)
  next
    case True
    define r where "r = count_right il rl (i1 - 1)"
    have unfold: "count_right il rl i1 = r"
      using True by (subst count_right.simps) (simp add: r_def)
    have IH: "r \<le> i1 - 1" "- 1 \<le> r"
      "\<And>j. r < int j \<Longrightarrow> int j \<le> i1 - 1 \<Longrightarrow> rl \<le> lower (il ! j)"
      "0 \<le> r \<Longrightarrow> lower (il ! nat r) < rl"
      using "1.IH" [OF True] "1.prems" True unfolding r_def by auto
    have here: "rl \<le> lower (il ! nat i1)"
      using True by (simp add: FLOAT8_order)
    have all: "rl \<le> lower (il ! j)" if "r < int j" "int j \<le> i1" for j
    proof (cases "int j = i1")
      case True
      then have "j = nat i1" by simp
      then show ?thesis using here by simp
    next
      case False
      then show ?thesis using that IH(3) by simp
    qed
    show ?thesis
      unfolding unfold using IH(1,2,4) all by auto
  qed
qed


lemma sorted_map_nth_mono:
  "sorted (map f xs) \<Longrightarrow> j \<le> k \<Longrightarrow> k < length xs \<Longrightarrow> f (xs ! j) \<le> f (xs ! k)"
  using sorted_nth_mono [of "map f xs" j k] by simp

lemma count_prefix_int:
  assumes "mset xs = mset ivs" "0 \<le> k" "k \<le> int (length xs)"
    and "\<And>j. int j < k \<Longrightarrow> P (xs ! j)"
    and "\<And>j. k \<le> int j \<Longrightarrow> j < length xs \<Longrightarrow> \<not> P (xs ! j)"
  shows "int (length (filter P ivs)) = k"
proof -
  have "length (filter P xs) = nat k"
    using assms(2-5) by (intro count_filter_prefix) auto
  then show ?thesis
    using count_filter_mset_eq [OF assms(1), of P] assms(2) by simp
qed

lemma scan_lower_bounds_inv:
  "sorted (map lower il) \<Longrightarrow> sorted (map upper iu) \<Longrightarrow>
   int (length il) = n \<Longrightarrow> int (length iu) = n \<Longrightarrow>
   mset il = mset ivs \<Longrightarrow> mset iu = mset ivs \<Longrightarrow>
   (\<And>c rl mn lu mx. Q c \<Longrightarrow>
      mn = int (length (filter (\<lambda>iv. lower iv < rl) ivs)) \<Longrightarrow>
      mx = int (length (filter (\<lambda>iv. upper iv \<le> lu) ivs)) \<Longrightarrow>
      mn \<le> mx \<Longrightarrow> Q (g_tbox_consider_split c d rl mn lu mx)) \<Longrightarrow>
   Q c \<Longrightarrow> 0 \<le> i1 \<Longrightarrow> i1 \<le> n \<Longrightarrow> 0 \<le> i2 \<Longrightarrow> i2 \<le> n \<Longrightarrow>
   (i1 < n \<longrightarrow> rl = lower (il ! nat i1)) \<Longrightarrow>
   (\<forall>j. int j < i1 \<longrightarrow> upper (il ! j) \<le> lu) \<Longrightarrow>
   (\<forall>j. int j < i2 \<longrightarrow> upper (iu ! j) \<le> lu) \<Longrightarrow>
   Q (scan_lower_bounds il iu n d c i1 i2 rl lu)"
proof (induction il iu n d c i1 i2 rl lu rule: scan_lower_bounds.induct)
  case (1 il iu n d c i1 i2 rl lu)
  note sl = "1.prems"(1) and su = "1.prems"(2) and ll = "1.prems"(3) and lu_len = "1.prems"(4)
    and ml = "1.prems"(5) and mu = "1.prems"(6) and step = "1.prems"(7) and Qc = "1.prems"(8)
    and b = "1.prems"(9-12) and H1 = "1.prems"(13) and H2 = "1.prems"(14) and H3 = "1.prems"(15)
  define r where "r = next_lower_bound il n rl i1 lu"
  define i1n where "i1n = fst r"
  define lun where "lun = snd r"
  have P: "i1 \<le> i1n" "i1n \<le> n" "lu \<le> lun"
    "\<And>j. i1 \<le> int j \<Longrightarrow> int j < i1n \<Longrightarrow> lower (il ! j) = rl \<and> upper (il ! j) \<le> lun"
    "i1n < n \<Longrightarrow> lower (il ! nat i1n) \<noteq> rl"
    using next_lower_bound_props [OF b(1,2), of il rl lu]
    unfolding r_def [symmetric] i1n_def [symmetric] lun_def [symmetric] by auto
  show ?case
  proof (cases "i1n \<ge> n")
    case True
    then have "scan_lower_bounds il iu n d c i1 i2 rl lu = c"
      by (subst scan_lower_bounds.simps) (simp add: Let_def r_def i1n_def)
    then show ?thesis using Qc by simp
  next
    case False
    define rln where "rln = lower (il ! nat i1n)"
    define i2n where "i2n = count_left iu n lun i2"
    define c2 where "c2 = g_tbox_consider_split c d rln i1n lun i2n"
    have unfold: "scan_lower_bounds il iu n d c i1 i2 rl lu =
        scan_lower_bounds il iu n d c2 i1n i2n rln lun"
      using False
      by (subst scan_lower_bounds.simps)
         (simp add: Let_def r_def i1n_def lun_def rln_def i2n_def c2_def)
    have C: "i2 \<le> i2n" "i2n \<le> n"
      "\<And>j. i2 \<le> int j \<Longrightarrow> int j < i2n \<Longrightarrow> upper (iu ! j) \<le> lun"
      "i2n < n \<Longrightarrow> \<not> upper (iu ! nat i2n) \<le> lun"
      using count_left_props [OF b(3,4), of iu lun] unfolding i2n_def [symmetric] by auto
    have lt: "i1 < i1n"
    proof (rule ccontr)
      assume "\<not> i1 < i1n"
      then have "i1 = i1n" using P(1) by simp
      then show False using H1 P(5) False by auto
    qed
    have i1n0: "0 \<le> i1n" using b(1) P(1) by simp
    have prev: "lower (il ! nat (i1n - 1)) = rl"
      using P(4) [of "nat (i1n - 1)"] lt b(1) by simp
    have "lower (il ! nat (i1n - 1)) \<le> lower (il ! nat i1n)"
      using sl False ll i1n0 by (intro sorted_map_nth_mono) auto
    then have rl_lt: "rl < rln"
      using prev P(5) False unfolding rln_def by auto
    have below: "lower (il ! j) < rln" if "int j < i1n" for j
    proof -
      have "lower (il ! j) \<le> lower (il ! nat (i1n - 1))"
        using sl that False ll i1n0 by (intro sorted_map_nth_mono) auto
      then show ?thesis using prev rl_lt by simp
    qed
    have above: "\<not> lower (il ! j) < rln" if "i1n \<le> int j" "j < length il" for j
    proof -
      have "lower (il ! nat i1n) \<le> lower (il ! j)"
        using sl that i1n0 by (intro sorted_map_nth_mono) auto
      then show ?thesis unfolding rln_def by simp
    qed
    have mn: "int (length (filter (\<lambda>iv. lower iv < rln) ivs)) = i1n"
      using ml i1n0 P(2) ll below above by (intro count_prefix_int [of il]) auto
    have fitL: "upper (il ! j) \<le> lun" if "int j < i1n" for j
    proof (cases "int j < i1")
      case True
      then show ?thesis using H2 P(3) by (meson order_trans)
    next
      case False
      then show ?thesis using P(4) [of j] that by simp
    qed
    have fitU: "upper (iu ! j) \<le> lun" if "int j < i2n" for j
    proof (cases "int j < i2")
      case True
      then show ?thesis using H3 P(3) by (meson order_trans)
    next
      case False
      then show ?thesis using C(3) [of j] that by simp
    qed
    have notU: "\<not> upper (iu ! j) \<le> lun" if "i2n \<le> int j" "j < length iu" for j
    proof -
      have i2n_lt: "i2n < n" using that lu_len by simp
      have "upper (iu ! nat i2n) \<le> upper (iu ! j)"
        using su that b(3) C(1) by (intro sorted_map_nth_mono) auto
      then show ?thesis using C(4) [OF i2n_lt] by (meson order_trans)
    qed
    have mx: "int (length (filter (\<lambda>iv. upper iv \<le> lun) ivs)) = i2n"
      using mu b(3) C(1,2) lu_len fitU notU by (intro count_prefix_int [of iu]) auto
    have "length (filter (\<lambda>iv. lower iv < rln) il) \<le> length (filter (\<lambda>iv. upper iv \<le> lun) il)"
    proof (rule count_filter_mono)
      fix x assume "x \<in> set il" "lower x < rln"
      then obtain j where j: "j < length il" "x = il ! j"
        by (auto simp: in_set_conv_nth)
      have "int j < i1n"
      proof (rule ccontr)
        assume "\<not> int j < i1n"
        then have "i1n \<le> int j" by simp
        from above [OF this j(1)] \<open>lower x < rln\<close> j(2) show False by simp
      qed
      then show "upper x \<le> lun" using fitL j by simp
    qed
    then have le: "i1n \<le> i2n"
      using mn mx count_filter_mset_eq [OF ml] by simp
    have Q2: "Q c2"
      unfolding c2_def using Qc mn mx le by (intro step) auto
    have h1: "i1n < n \<longrightarrow> rln = lower (il ! nat i1n)"
      by (simp add: rln_def)
    have h2: "\<forall>j. int j < i1n \<longrightarrow> upper (il ! j) \<le> lun"
      using fitL by blast
    have h3: "\<forall>j. int j < i2n \<longrightarrow> upper (iu ! j) \<le> lun"
      using fitU by blast
    have i2n0: "0 \<le> i2n" using b(3) C(1) by simp
    show ?thesis
      unfolding unfold c2_def
      by (rule "1.IH" [OF r_def i1n_def lun_def False rln_def i2n_def sl su ll lu_len ml mu step
            Q2 [unfolded c2_def] i1n0 P(2) i2n0 C(2) h1 h2 h3])
  qed
qed


lemma scan_upper_bounds_inv:
  "sorted (map lower il) \<Longrightarrow> sorted (map upper iu) \<Longrightarrow>
   mset il = mset ivs \<Longrightarrow> mset iu = mset ivs \<Longrightarrow>
   (\<And>c rl mn lu mx. Q c \<Longrightarrow>
      mn = int (length (filter (\<lambda>iv. lower iv < rl) ivs)) \<Longrightarrow>
      mx = int (length (filter (\<lambda>iv. upper iv \<le> lu) ivs)) \<Longrightarrow>
      mn \<le> mx \<Longrightarrow> Q (g_tbox_consider_split c d rl mn lu mx)) \<Longrightarrow>
   Q c \<Longrightarrow> - 1 \<le> i1 \<Longrightarrow> i1 < int (length il) \<Longrightarrow> - 1 \<le> i2 \<Longrightarrow> i2 < int (length iu) \<Longrightarrow>
   (0 \<le> i2 \<longrightarrow> lu = upper (iu ! nat i2)) \<Longrightarrow>
   (\<forall>j. i2 < int j \<and> j < length iu \<longrightarrow> rl \<le> lower (iu ! j)) \<Longrightarrow>
   (\<forall>j. i1 < int j \<and> j < length il \<longrightarrow> rl \<le> lower (il ! j)) \<Longrightarrow>
   Q (scan_upper_bounds il iu d c i1 i2 rl lu)"
proof (induction il iu d c i1 i2 rl lu rule: scan_upper_bounds.induct)
  case (1 il iu d c i1 i2 rl lu)
  note sl = "1.prems"(1) and su = "1.prems"(2)
    and ml = "1.prems"(3) and mu = "1.prems"(4) and step = "1.prems"(5) and Qc = "1.prems"(6)
    and b = "1.prems"(7-10) and K1 = "1.prems"(11) and K2 = "1.prems"(12) and K3 = "1.prems"(13)
  define r where "r = next_upper_bound iu lu i2 rl"
  define i2n where "i2n = fst r"
  define rln where "rln = snd r"
  have P: "i2n \<le> i2" "- 1 \<le> i2n" "rln \<le> rl"
    "\<And>j. i2n < int j \<Longrightarrow> int j \<le> i2 \<Longrightarrow> upper (iu ! j) = lu \<and> rln \<le> lower (iu ! j)"
    "0 \<le> i2n \<Longrightarrow> upper (iu ! nat i2n) \<noteq> lu"
    using next_upper_bound_props [OF b(3), of iu lu rl]
    unfolding r_def [symmetric] i2n_def [symmetric] rln_def [symmetric] by auto
  show ?case
  proof (cases "i2n < 0")
    case True
    then have "scan_upper_bounds il iu d c i1 i2 rl lu = c"
      by (subst scan_upper_bounds.simps) (simp add: Let_def r_def i2n_def)
    then show ?thesis using Qc by simp
  next
    case False
    define lun where "lun = upper (iu ! nat i2n)"
    define i1n where "i1n = count_right il rln i1"
    define c2 where "c2 = g_tbox_consider_split c d rln (i1n + 1) lun (i2n + 1)"
    have unfold: "scan_upper_bounds il iu d c i1 i2 rl lu =
        scan_upper_bounds il iu d c2 i1n i2n rln lun"
      using False
      by (subst scan_upper_bounds.simps)
         (simp add: Let_def r_def i2n_def rln_def lun_def i1n_def c2_def)
    have C: "i1n \<le> i1" "- 1 \<le> i1n"
      "\<And>j. i1n < int j \<Longrightarrow> int j \<le> i1 \<Longrightarrow> rln \<le> lower (il ! j)"
      "0 \<le> i1n \<Longrightarrow> lower (il ! nat i1n) < rln"
      using count_right_props [OF b(1), of il rln] unfolding i1n_def [symmetric] by auto
    have i2n0: "0 \<le> i2n" using False by simp
    have lt: "i2n < i2"
    proof (rule ccontr)
      assume "\<not> i2n < i2"
      then have "i2 = i2n" using P(1) by simp
      then show False using K1 P(5) i2n0 by auto
    qed
    have nxt: "upper (iu ! nat (i2n + 1)) = lu"
      using P(4) [of "nat (i2n + 1)"] lt i2n0 by simp
    have "upper (iu ! nat i2n) \<le> upper (iu ! nat (i2n + 1))"
      using su lt b(4) i2n0 by (intro sorted_map_nth_mono) auto
    then have lu_lt: "lun < lu"
      using nxt P(5) i2n0 unfolding lun_def by auto
    have belowU: "upper (iu ! j) \<le> lun" if "int j \<le> i2n" for j
      unfolding lun_def using su that lt b(4) i2n0 by (intro sorted_map_nth_mono) auto
    have aboveU: "\<not> upper (iu ! j) \<le> lun" if "i2n < int j" "j < length iu" for j
    proof -
      have "upper (iu ! nat (i2n + 1)) \<le> upper (iu ! j)"
        using su that i2n0 by (intro sorted_map_nth_mono) auto
      then show ?thesis using nxt lu_lt by simp
    qed
    have mx: "int (length (filter (\<lambda>iv. upper iv \<le> lun) ivs)) = i2n + 1"
      using mu i2n0 lt b(4) belowU aboveU by (intro count_prefix_int [of iu]) auto
    have fitRU: "rln \<le> lower (iu ! j)" if "i2n < int j" "j < length iu" for j
    proof (cases "int j \<le> i2")
      case True
      then show ?thesis using P(4) [of j] that by simp
    next
      case False
      then have "rl \<le> lower (iu ! j)" using K2 that by simp
      then show ?thesis using P(3) by (meson order_trans)
    qed
    have fitRL: "rln \<le> lower (il ! j)" if "i1n < int j" "j < length il" for j
    proof (cases "int j \<le> i1")
      case True
      then show ?thesis using C(3) [of j] that by simp
    next
      case False
      then have "rl \<le> lower (il ! j)" using K3 that by simp
      then show ?thesis using P(3) by (meson order_trans)
    qed
    have belowL: "lower (il ! j) < rln" if "int j \<le> i1n" for j
    proof -
      have i1n0: "0 \<le> i1n" using that by simp
      have "lower (il ! j) \<le> lower (il ! nat i1n)"
        using sl that C(1) b(2) i1n0 by (intro sorted_map_nth_mono) auto
      then show ?thesis using C(4) [OF i1n0] by simp
    qed
    have aboveL: "\<not> lower (il ! j) < rln" if "i1n + 1 \<le> int j" "j < length il" for j
      using fitRL [of j] that by simp
    have mn: "int (length (filter (\<lambda>iv. lower iv < rln) ivs)) = i1n + 1"
      using ml C(1,2) b(2) belowL aboveL by (intro count_prefix_int [of il]) auto
    have "length (filter (\<lambda>iv. lower iv < rln) iu) \<le> length (filter (\<lambda>iv. upper iv \<le> lun) iu)"
    proof (rule count_filter_mono)
      fix x assume "x \<in> set iu" "lower x < rln"
      then obtain j where j: "j < length iu" "x = iu ! j"
        by (auto simp: in_set_conv_nth)
      have "int j \<le> i2n"
      proof (rule ccontr)
        assume "\<not> int j \<le> i2n"
        then have "i2n < int j" by simp
        from fitRU [OF this j(1)] \<open>lower x < rln\<close> j(2) show False by simp
      qed
      then show "upper x \<le> lun" using belowU j by simp
    qed
    then have le: "i1n + 1 \<le> i2n + 1"
      using mn mx count_filter_mset_eq [OF mu] by simp
    have Q2: "Q c2"
      unfolding c2_def using Qc mn mx le by (intro step) auto
    have h1: "0 \<le> i2n \<longrightarrow> lun = upper (iu ! nat i2n)"
      by (simp add: lun_def)
    have h2: "\<forall>j. i2n < int j \<and> j < length iu \<longrightarrow> rln \<le> lower (iu ! j)"
      using fitRU by blast
    have h3: "\<forall>j. i1n < int j \<and> j < length il \<longrightarrow> rln \<le> lower (il ! j)"
      using fitRL by blast
    have i1n_lt: "i1n < int (length il)" using C(1) b(2) by simp
    have i2n_lt: "i2n < int (length iu)" using P(1) b(4) by simp
    show ?thesis
      unfolding unfold c2_def
      by (rule "1.IH" [OF r_def i2n_def rln_def False lun_def i1n_def sl su ml mu step
            Q2 [unfolded c2_def] C(2) i1n_lt P(2) i2n_lt h1 h2 h3])
  qed
qed


subsection \<open>The selected split leaves room on both sides\<close>

lemma leftCount_between:
  fixes n mn mx :: int
  assumes "mn \<le> mx"
  defines "lc \<equiv> (if mn \<ge> (n + 1) div 2 then mn else if mx \<le> n div 2 then mx else n div 2)"
  shows "mn \<le> lc \<and> lc \<le> mx"
proof -
  have "mn \<le> n div 2" if "\<not> mn \<ge> (n + 1) div 2"
    using that by linarith
  then show ?thesis using assms(1) unfolding lc_def by auto
qed

lemma if_if_shape:
  "(if A then (if S then u else c) else c) = c \<or>
   (A \<and> (if A then (if S then u else c) else c) = u)"
  by auto

lemma consider_split_shape:
  fixes c d rl mn lu mx
  defines "new \<equiv> g_tbox_consider_split c d rl mn lu mx"
  shows "new = c \<or>
     (ratio_gt_LIMIT_RATIO
        (min (if mn \<ge> (entriesCount c + 1) div 2 then mn
              else if mx \<le> entriesCount c div 2 then mx else entriesCount c div 2)
             (entriesCount c -
              (if mn \<ge> (entriesCount c + 1) div 2 then mn
               else if mx \<le> entriesCount c div 2 then mx else entriesCount c div 2)))
        (entriesCount c) \<and>
      \<not> first new \<and> dim new = d \<and> leftUpper new = lu \<and> rightLower new = rl \<and>
      entriesCount new = entriesCount c)"
proof -
  have "new = c \<or>
     (ratio_gt_LIMIT_RATIO
        (min (if mn \<ge> (entriesCount c + 1) div 2 then mn
              else if mx \<le> entriesCount c div 2 then mx else entriesCount c div 2)
             (entriesCount c -
              (if mn \<ge> (entriesCount c + 1) div 2 then mn
               else if mx \<le> entriesCount c div 2 then mx else entriesCount c div 2)))
        (entriesCount c) \<and>
      (\<exists>r rg ov. new = c\<lparr> first := False, ratio := r, range_w := rg, overlap := ov,
                 rightLower := rl, leftUpper := lu, dim := d \<rparr>))"
    unfolding new_def g_tbox_consider_split_def Let_def
    apply (rule disj_forward [OF if_if_shape])
     apply assumption
    apply blast
    done
  then show ?thesis by auto
qed


lemma consider_split_ok:
  assumes ok: "selected_split_ok es c" and n: "length es < 33554432"
    and mn: "mn = int (length (filter (\<lambda>iv. lower iv < rl) (map (project_interval d) es)))"
    and mx: "mx = int (length (filter (\<lambda>iv. upper iv \<le> lu) (map (project_interval d) es)))"
    and le: "mn \<le> mx"
  shows "selected_split_ok es (g_tbox_consider_split c d rl mn lu mx)"
proof -
  define new where "new = g_tbox_consider_split c d rl mn lu mx"
  define lc where "lc = (if mn \<ge> (entriesCount c + 1) div 2 then mn
              else if mx \<le> entriesCount c div 2 then mx else entriesCount c div 2)"
  have cnt: "entriesCount c = int (length es)"
    using ok by (simp add: selected_split_ok_def)
  from consider_split_shape [of c d rl mn lu mx]
  consider (same) "new = c"
    | (sel) "ratio_gt_LIMIT_RATIO (min lc (entriesCount c - lc)) (entriesCount c)"
        "\<not> first new" "dim new = d" "leftUpper new = lu" "rightLower new = rl"
        "entriesCount new = entriesCount c"
    unfolding new_def lc_def by blast
  then have "selected_split_ok es new"
  proof cases
    case same
    then show ?thesis using ok by simp
  next
    case sel
    have "ceil_LIMIT_RATIO (int (length es)) \<le> min lc (int (length es) - lc)"
      using ratio_gt_LIMIT_RATIO_ceil [OF sel(1) [unfolded cnt]] n by simp
    moreover have "mn \<le> lc \<and> lc \<le> mx"
      unfolding lc_def by (rule leftCount_between [OF le])
    moreover have "int (length (filter (\<lambda>iv. upper iv \<le> lu \<and> lower iv < rl)
                (map (project_interval d) es))) \<le> mn"
      unfolding mn using count_filter_mono [of "map (project_interval d) es"
          "\<lambda>iv. upper iv \<le> lu \<and> lower iv < rl" "\<lambda>iv. lower iv < rl"] by simp
    ultimately show ?thesis
      unfolding selected_split_ok_def using sel(2-6) cnt mx by simp
  qed
  then show ?thesis by (simp add: new_def)
qed

lemma scan_axis_ok:
  assumes ok: "selected_split_ok es c" and n: "length es < 33554432"
  shows "selected_split_ok es (scan_axis es (int (length es)) c d)"
proof -
  define ivs where "ivs = map (project_interval d) es"
  define il where "il = qsort interval_cmp_lower ivs"
  define iu where "iu = qsort interval_cmp_upper ivs"
  define c1 where "c1 = scan_lower_bounds il iu (int (length es)) d c 0 0
              (lower (il ! 0)) (lower (iu ! 0))"
  have eq: "scan_axis es (int (length es)) c d =
      scan_upper_bounds il iu d c1 (int (length es) - 1) (int (length es) - 1)
           (upper (il ! nat (int (length es) - 1)))
           (upper (iu ! nat (int (length es) - 1)))"
    by (simp add: scan_axis_def Let_def ivs_def il_def iu_def c1_def)
  have sl: "sorted (map lower il)" and su: "sorted (map upper iu)"
    by (simp_all add: il_def iu_def sorted_qsort_lower sorted_qsort_upper)
  have ml: "mset il = mset ivs" and mu: "mset iu = mset ivs"
    by (simp_all add: il_def iu_def mset_qsort)
  have ll: "int (length il) = int (length es)" and lu: "int (length iu) = int (length es)"
    by (simp_all add: il_def iu_def length_qsort ivs_def)
  have step: "selected_split_ok es (g_tbox_consider_split c' d rl mn lu mx)"
    if "selected_split_ok es c'"
      "mn = int (length (filter (\<lambda>iv. lower iv < rl) ivs))"
      "mx = int (length (filter (\<lambda>iv. upper iv \<le> lu) ivs))" "mn \<le> mx"
    for c' rl mn lu mx
    using that n unfolding ivs_def by (intro consider_split_ok) auto
  have ok1: "selected_split_ok es c1"
    unfolding c1_def
    by (rule scan_lower_bounds_inv [where Q = "selected_split_ok es" and ivs = ivs,
          OF sl su ll lu ml mu step ok]) auto
  show ?thesis
    unfolding eq
    by (rule scan_upper_bounds_inv [where Q = "selected_split_ok es" and ivs = ivs,
          OF sl su ml mu step ok1]) (use ll lu in auto)
qed

lemma picksplit_context_ok:
  assumes "length es < 33554432"
  shows "selected_split_ok es (picksplit_context es)"
proof -
  define c0 where "c0 =
     \<lparr> entriesCount = int (length es), boundingBox = picksplit_boundingBox es,
       first = True, leftUpper = Fin 0, rightLower = Fin 0, ratio = Fin 0,
       overlap = Fin 0, dim = 0, range_w = Fin 0 \<rparr>"
  have "selected_split_ok es c0"
    by (simp add: selected_split_ok_def c0_def)
  then have "selected_split_ok es (scan_axis es (int (length es)) c0 0)"
    using assms by (rule scan_axis_ok)
  then have "selected_split_ok es
      (scan_axis es (int (length es)) (scan_axis es (int (length es)) c0 0) 1)"
    using assms by (rule scan_axis_ok)
  then show ?thesis
    by (simp add: picksplit_context_def Let_def c0_def)
qed


lemma count_two_way:
  "length (filter (\<lambda>x. A x \<and> B x) xs) + length (filter (\<lambda>x. A x \<and> \<not> B x) xs) =
   length (filter A xs)"
  by (induction xs) auto

lemma count_offsets:
  "length (filter (\<lambda>i. P (f (es ! (i - 1)))) [1 ..< Suc (length es)]) =
   length (filter P (map f es))"
proof -
  have "length (filter P (map f es)) =
        length (filter P (map f (map (\<lambda>i. es ! (i - 1)) [1 ..< Suc (length es)])))"
    by (simp only: nth_offsets)
  also have "\<dots> = length (filter (\<lambda>i. P (f (es ! (i - 1)))) [1 ..< Suc (length es)])"
    by (simp only: map_map length_filter_map comp_def)
  finally show ?thesis by simp
qed

lemma distribute_counts:
  fixes c es
  defines "ivs \<equiv> map (project_interval (dim c)) es"
  defines "st1 \<equiv> fold (distribute_entry c es) [FirstOffsetNumber ..< Suc (length es)]
             \<lparr> spl_left = [], spl_nleft = 0, spl_ldatum = None,
               spl_right = [], spl_nright = 0, spl_rdatum = None,
               leftBox = zero_TBOX, rightBox = zero_TBOX, commonEntries = [] \<rparr>"
  shows "spl_nleft st1 =
           int (length (filter (\<lambda>iv. upper iv \<le> leftUpper c \<and> lower iv < rightLower c) ivs))"
    and "spl_nright st1 = int (length (filter (\<lambda>iv. \<not> upper iv \<le> leftUpper c) ivs))"
    and "int (length (commonEntries st1)) =
           int (length (filter (\<lambda>iv. upper iv \<le> leftUpper c \<and> \<not> lower iv < rightLower c) ivs))"
proof -
  have st1: "st1 = fold (distribute_entry c es) [1 ..< Suc (length es)]
             \<lparr> spl_left = [], spl_nleft = 0, spl_ldatum = None,
               spl_right = [], spl_nright = 0, spl_rdatum = None,
               leftBox = zero_TBOX, rightBox = zero_TBOX, commonEntries = [] \<rparr>"
    by (simp add: st1_def FirstOffsetNumber_def del: upt_Suc)
  note f = distribute_entry_fold [of c es "[1 ..< Suc (length es)]"
      "\<lparr> spl_left = [], spl_nleft = 0, spl_ldatum = None,
               spl_right = [], spl_nright = 0, spl_rdatum = None,
               leftBox = zero_TBOX, rightBox = zero_TBOX, commonEntries = [] \<rparr>",
      folded st1]
  show "spl_nleft st1 =
           int (length (filter (\<lambda>iv. upper iv \<le> leftUpper c \<and> lower iv < rightLower c) ivs))"
    using f count_offsets [of "\<lambda>iv. upper iv \<le> leftUpper c \<and> lower iv < rightLower c"
        "project_interval (dim c)" es]
    by (simp add: ivs_def del: upt_Suc)
  show "spl_nright st1 = int (length (filter (\<lambda>iv. \<not> upper iv \<le> leftUpper c) ivs))"
    using f count_offsets [of "\<lambda>iv. \<not> upper iv \<le> leftUpper c" "project_interval (dim c)" es]
    by (simp add: ivs_def del: upt_Suc)
  have "length (commonEntries st1) = length (map index (commonEntries st1))"
    by simp
  also have "\<dots> = length (filter (\<lambda>iv. upper iv \<le> leftUpper c \<and> \<not> lower iv < rightLower c) ivs)"
    using f count_offsets [of "\<lambda>iv. upper iv \<le> leftUpper c \<and> \<not> lower iv < rightLower c"
        "project_interval (dim c)" es]
    by (simp add: ivs_def del: upt_Suc length_map)
  finally show "int (length (commonEntries st1)) =
           int (length (filter (\<lambda>iv. upper iv \<le> leftUpper c \<and> \<not> lower iv < rightLower c) ivs))"
    by simp
qed

lemma ceil_le_half:
  fixes k :: int
  assumes "2 \<le> k"
  shows "(3 * k + 9) div 10 \<le> k div 2"
proof -
  have "2 div 2 \<le> k div 2" using assms by (intro zdiv_mono1) auto
  then have b: "1 \<le> k div 2" by simp
  have 1: "10 * ((3 * k + 9) div 10) \<le> 3 * k + 9" by linarith
  have 2: "k \<le> 2 * (k div 2) + 1" by linarith
  show ?thesis
  proof (rule ccontr)
    assume "\<not> (3 * k + 9) div 10 \<le> k div 2"
    then have "k div 2 + 1 \<le> (3 * k + 9) div 10" by simp
    with 1 2 b show False by linarith
  qed
qed

lemma picksplit_counts_fill:
  assumes "2 \<le> length es" "length es < 33554432"
  shows "ceil_LIMIT_RATIO (int (length es)) \<le> spl_nleft (gist_tbox_picksplit es) \<and>
         ceil_LIMIT_RATIO (int (length es)) \<le> spl_nright (gist_tbox_picksplit es)"
proof (cases "first (picksplit_context es)")
  case True
  have k2: "2 \<le> int (length es)" using assms(1) by simp
  have "2 * (int (length es) div 2) \<le> int (length es)" by linarith
  with ceil_le_half [OF k2]
  have "(3 * int (length es) + 9) div 10 \<le> int (length es) div 2"
    "(3 * int (length es) + 9) div 10 \<le> int (length es) - int (length es) div 2"
    by linarith+
  then have "(3 * int (length es) + 9) div 10 \<le> int (length es div 2)"
    "(3 * int (length es) + 9) div 10 \<le> int (length es - length es div 2)"
    by (simp_all add: zdiv_int of_nat_diff)
  then show ?thesis
    using picksplit_first_halves [OF True, THEN conjunct2]
    by (simp add: ceil_LIMIT_RATIO_def)
next
  case False
  define c where "c = picksplit_context es"
  define ivs where "ivs = map (project_interval (dim c)) es"
  define st0 :: split_state where "st0 =
       \<lparr> spl_left = [], spl_nleft = 0, spl_ldatum = None,
         spl_right = [], spl_nright = 0, spl_rdatum = None,
         leftBox = zero_TBOX, rightBox = zero_TBOX, commonEntries = [] \<rparr>"
  define st1 where "st1 = fold (distribute_entry c es) [FirstOffsetNumber ..< Suc (length es)] st0"
  define st2 where "st2 = distribute_common es (int (length es)) st1"
  define m where "m = ceil_LIMIT_RATIO (int (length es))"
  note v = picksplit_split_state [OF False, folded c_def st0_def, folded st1_def, folded st2_def]
  note cnt = distribute_counts [of c es, folded st0_def, folded st1_def, folded ivs_def]
  have ok: "m \<le> int (length (filter (\<lambda>iv. upper iv \<le> leftUpper c) ivs))"
    "int (length (filter (\<lambda>iv. upper iv \<le> leftUpper c \<and> lower iv < rightLower c) ivs)) + m
       \<le> int (length es)"
    using picksplit_context_ok [OF assms(2)] False
    unfolding selected_split_ok_def c_def [symmetric] ivs_def [symmetric] m_def [symmetric]
    by auto
  have two: "length (filter (\<lambda>iv. upper iv \<le> leftUpper c \<and> lower iv < rightLower c) ivs) +
        length (filter (\<lambda>iv. upper iv \<le> leftUpper c \<and> \<not> lower iv < rightLower c) ivs) =
        length (filter (\<lambda>iv. upper iv \<le> leftUpper c) ivs)"
    by (rule count_two_way)
  have all: "length (filter (\<lambda>iv. upper iv \<le> leftUpper c) ivs) +
        length (filter (\<lambda>iv. \<not> upper iv \<le> leftUpper c) ivs) = length es"
    using sum_length_filter_compl [of "\<lambda>iv. upper iv \<le> leftUpper c" ivs]
    by (simp add: ivs_def)
  have "2 \<le> int (length es)" using assms(1) by simp
  from ceil_le_half [OF this] have m2: "2 * m \<le> int (length es)"
    unfolding m_def ceil_LIMIT_RATIO_def by linarith
  have a: "m \<le> spl_nleft st1 + int (length (commonEntries st1))"
    using ok(1) two unfolding cnt by linarith
  have b: "m \<le> spl_nright st1 + int (length (commonEntries st1))"
    using ok(2) two all unfolding cnt by linarith
  have c': "2 * m \<le> spl_nleft st1 + spl_nright st1 + int (length (commonEntries st1))"
    using m2 two all unfolding cnt by linarith
  show ?thesis
    unfolding v m_def [symmetric] st2_def
    by (rule distribute_common_fill [OF m_def a b c'])
qed


lemma picksplit_mset:
  "mset (spl_left (gist_tbox_picksplit es) @ spl_right (gist_tbox_picksplit es)) = mset [1 ..< Suc (length es)] \<and>
        spl_nleft (gist_tbox_picksplit es) = int (length (spl_left (gist_tbox_picksplit es))) \<and>
        spl_nright (gist_tbox_picksplit es) = int (length (spl_right (gist_tbox_picksplit es)))"
proof -
  let ?v = "gist_tbox_picksplit es"
  show ?thesis
  proof (cases "first (picksplit_context es)")
  case True
  have "[1 ..< Suc (length es div 2)] @ [Suc (length es div 2) ..< Suc (length es)] =
        [1 ..< Suc (length es)]"
    using upt_add_eq_append [of 1 "Suc (length es div 2)" "length es - length es div 2"]
    by (simp del: upt_Suc)
  note app = this
  note fb = picksplit_first_halves [OF True, THEN conjunct2]
  have "spl_left ?v @ spl_right ?v = [1 ..< Suc (length es)]"
    using app by (simp only: fb)
  then have a: "mset (spl_left ?v @ spl_right ?v) = mset [1 ..< Suc (length es)]"
    by (rule arg_cong)
  have b: "length (spl_left ?v) = length es div 2"
    "length (spl_right ?v) = length es - length es div 2"
    by (simp_all only: fb length_upt diff_Suc_Suc diff_Suc_1 One_nat_def)
  have c: "spl_nleft ?v = int (length es div 2)"
    "spl_nright ?v = int (length es - length es div 2)"
    using fb by blast+
  show ?thesis
    unfolding b c using a by blast
next
  case False
  define c where "c = picksplit_context es"
  define st0 :: split_state where "st0 =
     \<lparr> spl_left = [], spl_nleft = 0, spl_ldatum = None,
       spl_right = [], spl_nright = 0, spl_rdatum = None,
       leftBox = zero_TBOX, rightBox = zero_TBOX, commonEntries = [] \<rparr>"
  define st1 where "st1 = fold (distribute_entry c es) [FirstOffsetNumber ..< Suc (length es)] st0"
  define st2 where "st2 = distribute_common es (int (length es)) st1"
  note v = picksplit_split_state [OF False, folded c_def st0_def, folded st1_def, folded st2_def]
  have d1: "mset (spl_left st1 @ spl_right st1) + mset (map index (commonEntries st1)) =
      mset [1 ..< Suc (length es)] \<and>
      spl_nleft st1 = int (length (spl_left st1)) \<and>
      spl_nright st1 = int (length (spl_right st1))"
    using distribute_entry_fold [of c es "[FirstOffsetNumber ..< Suc (length es)]" st0]
      mset_three_way [of "\<lambda>i. upper (project_interval (dim c) (es ! (i - 1))) \<le> leftUpper c"
        "\<lambda>i. lower (project_interval (dim c) (es ! (i - 1))) < rightLower c"
        "[1 ..< Suc (length es)]"]
    by (simp add: st1_def st0_def FirstOffsetNumber_def ac_simps del: upt_Suc mset_upt)
  show ?thesis
    unfolding v
    using distribute_common_props [of es "int (length es)" st1] d1
    by (simp add: st2_def)
qed
qed

subsection \<open>The trivial split and the candidates\<close>

text \<open>
  The scans are folds of \<^verbatim>\<open>g_tbox_consider_split\<close> over the candidates they consider, and
  \<open>context.first\<close> is still true after both exactly when none of these candidates passes
  the ratio test, which on every node size that can occur is \<open>ratio < 3/10\<close> for the
  quotient of the counts. The two datums of the trivial split are the bounding boxes of
  the two halves, in the NaN-aware order.
\<close>

lemma scan_lower_bounds_candidates:
  "scan_lower_bounds il iu n d c i1 i2 rl lu =
     fold (\<lambda>(rl, mn, lu, mx) c. g_tbox_consider_split c d rl mn lu mx)
       (scan_lower_candidates il iu n i1 i2 rl lu) c"
proof (induction il iu n d c i1 i2 rl lu rule: scan_lower_bounds.induct)
  case (1 il iu n d c i1 i2 rl lu)
  define r where "r = next_lower_bound il n rl i1 lu"
  define i1n where "i1n = fst r"
  define lun where "lun = snd r"
  show ?case
  proof (cases "i1n \<ge> n")
    case True
    then have "scan_lower_bounds il iu n d c i1 i2 rl lu = c"
      "scan_lower_candidates il iu n i1 i2 rl lu = []"
      by (subst scan_lower_bounds.simps, simp add: Let_def r_def i1n_def,
          subst scan_lower_candidates.simps, simp add: Let_def r_def i1n_def)
    then show ?thesis by simp
  next
    case False
    define rln where "rln = lower (il ! nat i1n)"
    define i2n where "i2n = count_left iu n lun i2"
    have a: "scan_lower_bounds il iu n d c i1 i2 rl lu =
        scan_lower_bounds il iu n d (g_tbox_consider_split c d rln i1n lun i2n) i1n i2n rln lun"
      using False
      by (subst scan_lower_bounds.simps)
         (simp add: Let_def r_def i1n_def lun_def rln_def i2n_def)
    have b: "scan_lower_candidates il iu n i1 i2 rl lu =
        (rln, i1n, lun, i2n) # scan_lower_candidates il iu n i1n i2n rln lun"
      using False
      by (subst scan_lower_candidates.simps)
         (simp add: Let_def r_def i1n_def lun_def rln_def i2n_def)
    show ?thesis
      unfolding a b
      using "1.IH" [OF r_def i1n_def lun_def False rln_def i2n_def] by simp
  qed
qed

lemma scan_upper_bounds_candidates:
  "scan_upper_bounds il iu d c i1 i2 rl lu =
     fold (\<lambda>(rl, mn, lu, mx) c. g_tbox_consider_split c d rl mn lu mx)
       (scan_upper_candidates il iu i1 i2 rl lu) c"
proof (induction il iu d c i1 i2 rl lu rule: scan_upper_bounds.induct)
  case (1 il iu d c i1 i2 rl lu)
  define r where "r = next_upper_bound iu lu i2 rl"
  define i2n where "i2n = fst r"
  define rln where "rln = snd r"
  show ?case
  proof (cases "i2n < 0")
    case True
    then have "scan_upper_bounds il iu d c i1 i2 rl lu = c"
      "scan_upper_candidates il iu i1 i2 rl lu = []"
      by (subst scan_upper_bounds.simps, simp add: Let_def r_def i2n_def,
          subst scan_upper_candidates.simps, simp add: Let_def r_def i2n_def)
    then show ?thesis by simp
  next
    case False
    define lun where "lun = upper (iu ! nat i2n)"
    define i1n where "i1n = count_right il rln i1"
    have a: "scan_upper_bounds il iu d c i1 i2 rl lu =
        scan_upper_bounds il iu d (g_tbox_consider_split c d rln (i1n + 1) lun (i2n + 1))
          i1n i2n rln lun"
      using False
      by (subst scan_upper_bounds.simps)
         (simp add: Let_def r_def i2n_def rln_def lun_def i1n_def)
    have b: "scan_upper_candidates il iu i1 i2 rl lu =
        (rln, i1n + 1, lun, i2n + 1) # scan_upper_candidates il iu i1n i2n rln lun"
      using False
      by (subst scan_upper_candidates.simps)
         (simp add: Let_def r_def i2n_def rln_def lun_def i1n_def)
    show ?thesis
      unfolding a b
      using "1.IH" [OF r_def i2n_def rln_def False lun_def i1n_def] by simp
  qed
qed

lemma scan_axis_candidates:
  "scan_axis es (int (length es)) c d =
     fold (\<lambda>(rl, mn, lu, mx) c. g_tbox_consider_split c d rl mn lu mx)
       (axis_candidates es d) c"
  by (simp add: scan_axis_def axis_candidates_def Let_def
      scan_lower_bounds_candidates scan_upper_bounds_candidates)

lemma picksplit_context_candidates:
  "picksplit_context es =
     fold (\<lambda>(rl, mn, lu, mx) c. g_tbox_consider_split c 1 rl mn lu mx)
       (axis_candidates es 1)
       (fold (\<lambda>(rl, mn, lu, mx) c. g_tbox_consider_split c 0 rl mn lu mx)
          (axis_candidates es 0)
          \<lparr> entriesCount = int (length es), boundingBox = picksplit_boundingBox es,
            first = True, leftUpper = Fin 0, rightLower = Fin 0, ratio = Fin 0,
            overlap = Fin 0, dim = 0, range_w = Fin 0 \<rparr>)"
  by (simp add: picksplit_context_def Let_def scan_axis_candidates)

lemma consider_split_first:
  "first (g_tbox_consider_split c d rl mn lu mx) \<longleftrightarrow>
   first c \<and> \<not> ratio_gt_LIMIT_RATIO (candidate_min_count (entriesCount c) mn mx) (entriesCount c)"
  unfolding g_tbox_consider_split_def candidate_min_count_def Let_def
  by (cases "first c") simp_all

lemma consider_split_entriesCount:
  "entriesCount (g_tbox_consider_split c d rl mn lu mx) = entriesCount c"
  unfolding g_tbox_consider_split_def Let_def by simp

lemma fold_consider_first:
  "entriesCount (fold (\<lambda>(rl, mn, lu, mx) c. g_tbox_consider_split c d rl mn lu mx) cands c) =
     entriesCount c \<and>
   (first (fold (\<lambda>(rl, mn, lu, mx) c. g_tbox_consider_split c d rl mn lu mx) cands c) \<longleftrightarrow>
    first c \<and>
    (\<forall>(rl, mn, lu, mx) \<in> set cands.
       \<not> ratio_gt_LIMIT_RATIO (candidate_min_count (entriesCount c) mn mx) (entriesCount c)))"
proof (induction cands arbitrary: c)
  case Nil
  show ?case by simp
next
  case (Cons a cands)
  obtain rl mn lu mx where a: "a = (rl, mn, lu, mx)" by (cases a) auto
  show ?case
    using Cons.IH [of "g_tbox_consider_split c d rl mn lu mx"]
    by (auto simp: a consider_split_first consider_split_entriesCount)
qed

lemma picksplit_context_first:
  "first (picksplit_context es) \<longleftrightarrow>
   (\<forall>(rl, mn, lu, mx) \<in> set (axis_candidates es 0 @ axis_candidates es 1).
      \<not> ratio_gt_LIMIT_RATIO (candidate_min_count (int (length es)) mn mx) (int (length es)))"
  unfolding picksplit_context_candidates
  using fold_consider_first [of 1 "axis_candidates es 1"]
    fold_consider_first [of 0 "axis_candidates es 0"]
  by (auto simp: ball_Un)


lemma candidate_ratio_rejected:
  assumes "0 < n" "n < 33554432"
  shows "\<not> ratio_gt_LIMIT_RATIO (candidate_min_count n mn mx) n \<longleftrightarrow>
         candidate_ratio n mn mx < 3 / 10"
proof -
  define k where "k = candidate_min_count n mn mx"
  have "ratio_gt_LIMIT_RATIO k n \<longleftrightarrow> 3 * n \<le> 10 * k"
    by (rule ratio_gt_LIMIT_RATIO_iff [OF assms])
  moreover have "real_of_int k / real_of_int n < 3 / 10 \<longleftrightarrow> 10 * k < 3 * n"
  proof -
    have "real_of_int k / real_of_int n < 3 / 10 \<longleftrightarrow>
          real_of_int (10 * k) < real_of_int (3 * n)"
      using assms(1) by (simp add: field_simps)
    also have "\<dots> \<longleftrightarrow> 10 * k < 3 * n"
      by (simp only: of_int_less_iff)
    finally show ?thesis .
  qed
  ultimately show ?thesis
    unfolding candidate_ratio_def k_def [symmetric] by linarith
qed

lemma picksplit_context_first_ratio:
  assumes "0 < length es" "length es < 33554432"
  shows "first (picksplit_context es) \<longleftrightarrow>
   (\<forall>(rl, mn, lu, mx) \<in> set (axis_candidates es 0 @ axis_candidates es 1).
      candidate_ratio (int (length es)) mn mx < 3 / 10)"
proof -
  have n: "0 < int (length es)" "int (length es) < 33554432"
    using assms by simp_all
  show ?thesis
    unfolding picksplit_context_first
    by (simp only: candidate_ratio_rejected [OF n])
qed

lemma adjustBox_min_max:
  "adjustBox b a =
     \<lparr> xmin = min (xmin b) (xmin a), tmin = min (tmin b) (tmin a),
       xmax = max (xmax b) (xmax a), tmax = max (tmax b) (tmax a) \<rparr>"
  unfolding adjustBox_def Let_def FLOAT8_order
  by (cases b) (auto simp: min_def max_def)

lemma fold_adjustBox:
  "xmin (fold (\<lambda>a u. adjustBox u a) bs b) = Min (xmin ` set (b # bs)) \<and>
   tmin (fold (\<lambda>a u. adjustBox u a) bs b) = Min (tmin ` set (b # bs)) \<and>
   xmax (fold (\<lambda>a u. adjustBox u a) bs b) = Max (xmax ` set (b # bs)) \<and>
   tmax (fold (\<lambda>a u. adjustBox u a) bs b) = Max (tmax ` set (b # bs))"
proof -
  have mn: "f (fold (\<lambda>a u. adjustBox u a) bs b) = fold min (map f bs) (f b)"
    if "\<And>u a. f (adjustBox u a) = min (f u) (f a)" for f :: "TBOX \<Rightarrow> float8"
    by (induction bs arbitrary: b) (simp_all add: that min.commute)
  have mx: "f (fold (\<lambda>a u. adjustBox u a) bs b) = fold max (map f bs) (f b)"
    if "\<And>u a. f (adjustBox u a) = max (f u) (f a)" for f :: "TBOX \<Rightarrow> float8"
    by (induction bs arbitrary: b) (simp_all add: that max.commute)
  have s: "f ` set (b # bs) = set (f b # map f bs)" for f :: "TBOX \<Rightarrow> float8"
    by simp
  have "xmin (fold (\<lambda>a u. adjustBox u a) bs b) = fold min (map xmin bs) (xmin b)"
    and "tmin (fold (\<lambda>a u. adjustBox u a) bs b) = fold min (map tmin bs) (tmin b)"
    and "xmax (fold (\<lambda>a u. adjustBox u a) bs b) = fold max (map xmax bs) (xmax b)"
    and "tmax (fold (\<lambda>a u. adjustBox u a) bs b) = fold max (map tmax bs) (tmax b)"
    by (rule mn mx, simp add: adjustBox_min_max)+
  then show ?thesis
    unfolding s Min.set_eq_fold Max.set_eq_fold by (simp only: simp_thms)
qed

lemma fold_union_datum:
  "fold (\<lambda>cur u. case u of None \<Rightarrow> Some cur | Some b \<Rightarrow> Some (adjustBox b cur)) (b # bs) None =
     Some \<lparr> xmin = Min (xmin ` set (b # bs)), tmin = Min (tmin ` set (b # bs)),
            xmax = Max (xmax ` set (b # bs)), tmax = Max (tmax ` set (b # bs)) \<rparr>"
proof -
  let ?acc = "\<lambda>cur u. case u of None \<Rightarrow> Some cur | Some b \<Rightarrow> Some (adjustBox b cur)"
  have "fold ?acc bs (Some b) = Some (fold (\<lambda>a u. adjustBox u a) bs b)" for b
    by (induction bs arbitrary: b) simp_all
  then have "fold ?acc (b # bs) None = Some (fold (\<lambda>a u. adjustBox u a) bs b)"
    by simp
  also have "fold (\<lambda>a u. adjustBox u a) bs b =
     \<lparr> xmin = Min (xmin ` set (b # bs)), tmin = Min (tmin ` set (b # bs)),
       xmax = Max (xmax ` set (b # bs)), tmax = Max (tmax ` set (b # bs)) \<rparr>"
    using fold_adjustBox [of bs b]
    by (cases "fold (\<lambda>a u. adjustBox u a) bs b") simp
  finally show ?thesis .
qed

lemma fallback_fold_datum:
  "spl_ldatum (fold (tbox_fallbackSplit_step es maxoff) is v) =
     fold (\<lambda>cur u. case u of None \<Rightarrow> Some cur | Some b \<Rightarrow> Some (adjustBox b cur))
       (map (\<lambda>i. es ! (i - 1)) (filter (\<lambda>i. i \<le> maxoff div 2) is)) (spl_ldatum v) \<and>
   spl_rdatum (fold (tbox_fallbackSplit_step es maxoff) is v) =
     fold (\<lambda>cur u. case u of None \<Rightarrow> Some cur | Some b \<Rightarrow> Some (adjustBox b cur))
       (map (\<lambda>i. es ! (i - 1)) (filter (\<lambda>i. \<not> i \<le> maxoff div 2) is)) (spl_rdatum v)"
proof -
  have step: "tbox_fallbackSplit_step es maxoff i v =
     (if i \<le> maxoff div 2 then
        v\<lparr> spl_left := spl_left v @ [i],
           spl_ldatum := (case spl_ldatum v of None \<Rightarrow> Some (es ! (i - 1))
                          | Some unionL \<Rightarrow> Some (adjustBox unionL (es ! (i - 1)))),
           spl_nleft := spl_nleft v + 1 \<rparr>
      else
        v\<lparr> spl_right := spl_right v @ [i],
           spl_rdatum := (case spl_rdatum v of None \<Rightarrow> Some (es ! (i - 1))
                          | Some unionR \<Rightarrow> Some (adjustBox unionR (es ! (i - 1)))),
           spl_nright := spl_nright v + 1 \<rparr>)" for i v
    unfolding tbox_fallbackSplit_step_def fallback_half Let_def ..
  show ?thesis
    by (induction "is" arbitrary: v) (simp_all add: step del: One_nat_def)
qed

lemma map_offsets_take:
  "h \<le> length es \<Longrightarrow> map (\<lambda>i. es ! (i - 1)) [1 ..< Suc h] = take h es"
  by (rule nth_equalityI) (simp_all del: upt_Suc)

lemma map_offsets_drop:
  "h \<le> length es \<Longrightarrow> map (\<lambda>i. es ! (i - 1)) [Suc h ..< Suc (length es)] = drop h es"
  by (rule nth_equalityI) (simp_all del: upt_Suc)

lemma tbox_fallbackSplit_datums:
  assumes "2 \<le> length es"
  shows "spl_ldatum (tbox_fallbackSplit es) =
     Some \<lparr> xmin = Min (xmin ` set (take (length es div 2) es)),
            tmin = Min (tmin ` set (take (length es div 2) es)),
            xmax = Max (xmax ` set (take (length es div 2) es)),
            tmax = Max (tmax ` set (take (length es div 2) es)) \<rparr> \<and>
   spl_rdatum (tbox_fallbackSplit es) =
     Some \<lparr> xmin = Min (xmin ` set (drop (length es div 2) es)),
            tmin = Min (tmin ` set (drop (length es div 2) es)),
            xmax = Max (xmax ` set (drop (length es div 2) es)),
            tmax = Max (tmax ` set (drop (length es div 2) es)) \<rparr>"
proof -
  have h: "length es div 2 \<le> length es" by simp
  obtain l ls where l: "take (length es div 2) es = l # ls"
    using assms by (cases "take (length es div 2) es") auto
  obtain r rs where r: "drop (length es div 2) es = r # rs"
    using assms by (cases "drop (length es div 2) es") auto
  have "spl_ldatum (tbox_fallbackSplit es) =
      fold (\<lambda>cur u. case u of None \<Rightarrow> Some cur | Some b \<Rightarrow> Some (adjustBox b cur))
        (take (length es div 2) es) None"
    and "spl_rdatum (tbox_fallbackSplit es) =
      fold (\<lambda>cur u. case u of None \<Rightarrow> Some cur | Some b \<Rightarrow> Some (adjustBox b cur))
        (drop (length es div 2) es) None"
    unfolding tbox_fallbackSplit_def Let_def FirstOffsetNumber_def
    by (simp_all only: fallback_fold_datum filter_le_upt [OF h] filter_gt_upt [OF h]
          map_offsets_take [OF h] map_offsets_drop [OF h] GIST_SPLITVEC.simps)
  then show ?thesis
    unfolding l r by (simp only: fold_union_datum simp_thms)
qed

subsection \<open>The three properties of the split\<close>

text \<open>
  C8, as the claim states it, fails: the claim takes a candidate of ratio at most 0.3 as
  not accepted, but the code accepts the ratio 0.3 itself. The test is
  \<^verbatim>\<open>ratio > LIMIT_RATIO\<close> with a \<^verbatim>\<open>float4\<close> ratio against the \<^verbatim>\<open>double\<close> constant 0.3, and
  the quotient 3/10 rounded to \<^verbatim>\<open>float4\<close> is greater than the double 0.3. For three boxes
  \<open>x:[0,1]\<close> followed by seven boxes \<open>x:[2,3]\<close>, all \<open>t:[0,1]\<close>, the only candidates
  considered (one by each scan of the value axis, none on the time axis) put 3 of the
  10 entries on the left, a ratio of exactly 3/10; the split returned is the
  double-sorting split \<open>[1,2,3]\<close> / \<open>[4..10]\<close>, not the trivial one, whose left array
  is \<open>[1..5]\<close>.
\<close>

theorem picksplit_accepts_ratio_at_limit:
  "axis_candidates
     [\<lparr>xmin = Fin 0, tmin = Fin 0, xmax = Fin 1, tmax = Fin 1\<rparr>,
      \<lparr>xmin = Fin 0, tmin = Fin 0, xmax = Fin 1, tmax = Fin 1\<rparr>,
      \<lparr>xmin = Fin 0, tmin = Fin 0, xmax = Fin 1, tmax = Fin 1\<rparr>,
      \<lparr>xmin = Fin 2, tmin = Fin 0, xmax = Fin 3, tmax = Fin 1\<rparr>,
      \<lparr>xmin = Fin 2, tmin = Fin 0, xmax = Fin 3, tmax = Fin 1\<rparr>,
      \<lparr>xmin = Fin 2, tmin = Fin 0, xmax = Fin 3, tmax = Fin 1\<rparr>,
      \<lparr>xmin = Fin 2, tmin = Fin 0, xmax = Fin 3, tmax = Fin 1\<rparr>,
      \<lparr>xmin = Fin 2, tmin = Fin 0, xmax = Fin 3, tmax = Fin 1\<rparr>,
      \<lparr>xmin = Fin 2, tmin = Fin 0, xmax = Fin 3, tmax = Fin 1\<rparr>,
      \<lparr>xmin = Fin 2, tmin = Fin 0, xmax = Fin 3, tmax = Fin 1\<rparr>] 0 = [(Fin 2, 3, Fin 1, 3), (Fin 2, 3, Fin 1, 3)] \<and>
   axis_candidates
     [\<lparr>xmin = Fin 0, tmin = Fin 0, xmax = Fin 1, tmax = Fin 1\<rparr>,
      \<lparr>xmin = Fin 0, tmin = Fin 0, xmax = Fin 1, tmax = Fin 1\<rparr>,
      \<lparr>xmin = Fin 0, tmin = Fin 0, xmax = Fin 1, tmax = Fin 1\<rparr>,
      \<lparr>xmin = Fin 2, tmin = Fin 0, xmax = Fin 3, tmax = Fin 1\<rparr>,
      \<lparr>xmin = Fin 2, tmin = Fin 0, xmax = Fin 3, tmax = Fin 1\<rparr>,
      \<lparr>xmin = Fin 2, tmin = Fin 0, xmax = Fin 3, tmax = Fin 1\<rparr>,
      \<lparr>xmin = Fin 2, tmin = Fin 0, xmax = Fin 3, tmax = Fin 1\<rparr>,
      \<lparr>xmin = Fin 2, tmin = Fin 0, xmax = Fin 3, tmax = Fin 1\<rparr>,
      \<lparr>xmin = Fin 2, tmin = Fin 0, xmax = Fin 3, tmax = Fin 1\<rparr>,
      \<lparr>xmin = Fin 2, tmin = Fin 0, xmax = Fin 3, tmax = Fin 1\<rparr>] 1 = [] \<and>
   candidate_ratio 10 3 3 = 3 / 10 \<and>
   spl_left (gist_tbox_picksplit
     [\<lparr>xmin = Fin 0, tmin = Fin 0, xmax = Fin 1, tmax = Fin 1\<rparr>,
      \<lparr>xmin = Fin 0, tmin = Fin 0, xmax = Fin 1, tmax = Fin 1\<rparr>,
      \<lparr>xmin = Fin 0, tmin = Fin 0, xmax = Fin 1, tmax = Fin 1\<rparr>,
      \<lparr>xmin = Fin 2, tmin = Fin 0, xmax = Fin 3, tmax = Fin 1\<rparr>,
      \<lparr>xmin = Fin 2, tmin = Fin 0, xmax = Fin 3, tmax = Fin 1\<rparr>,
      \<lparr>xmin = Fin 2, tmin = Fin 0, xmax = Fin 3, tmax = Fin 1\<rparr>,
      \<lparr>xmin = Fin 2, tmin = Fin 0, xmax = Fin 3, tmax = Fin 1\<rparr>,
      \<lparr>xmin = Fin 2, tmin = Fin 0, xmax = Fin 3, tmax = Fin 1\<rparr>,
      \<lparr>xmin = Fin 2, tmin = Fin 0, xmax = Fin 3, tmax = Fin 1\<rparr>,
      \<lparr>xmin = Fin 2, tmin = Fin 0, xmax = Fin 3, tmax = Fin 1\<rparr>]) = [1, 2, 3] \<and>
   spl_right (gist_tbox_picksplit
     [\<lparr>xmin = Fin 0, tmin = Fin 0, xmax = Fin 1, tmax = Fin 1\<rparr>,
      \<lparr>xmin = Fin 0, tmin = Fin 0, xmax = Fin 1, tmax = Fin 1\<rparr>,
      \<lparr>xmin = Fin 0, tmin = Fin 0, xmax = Fin 1, tmax = Fin 1\<rparr>,
      \<lparr>xmin = Fin 2, tmin = Fin 0, xmax = Fin 3, tmax = Fin 1\<rparr>,
      \<lparr>xmin = Fin 2, tmin = Fin 0, xmax = Fin 3, tmax = Fin 1\<rparr>,
      \<lparr>xmin = Fin 2, tmin = Fin 0, xmax = Fin 3, tmax = Fin 1\<rparr>,
      \<lparr>xmin = Fin 2, tmin = Fin 0, xmax = Fin 3, tmax = Fin 1\<rparr>,
      \<lparr>xmin = Fin 2, tmin = Fin 0, xmax = Fin 3, tmax = Fin 1\<rparr>,
      \<lparr>xmin = Fin 2, tmin = Fin 0, xmax = Fin 3, tmax = Fin 1\<rparr>,
      \<lparr>xmin = Fin 2, tmin = Fin 0, xmax = Fin 3, tmax = Fin 1\<rparr>]) = [4, 5, 6, 7, 8, 9, 10] \<and>
   spl_left (tbox_fallbackSplit
     [\<lparr>xmin = Fin 0, tmin = Fin 0, xmax = Fin 1, tmax = Fin 1\<rparr>,
      \<lparr>xmin = Fin 0, tmin = Fin 0, xmax = Fin 1, tmax = Fin 1\<rparr>,
      \<lparr>xmin = Fin 0, tmin = Fin 0, xmax = Fin 1, tmax = Fin 1\<rparr>,
      \<lparr>xmin = Fin 2, tmin = Fin 0, xmax = Fin 3, tmax = Fin 1\<rparr>,
      \<lparr>xmin = Fin 2, tmin = Fin 0, xmax = Fin 3, tmax = Fin 1\<rparr>,
      \<lparr>xmin = Fin 2, tmin = Fin 0, xmax = Fin 3, tmax = Fin 1\<rparr>,
      \<lparr>xmin = Fin 2, tmin = Fin 0, xmax = Fin 3, tmax = Fin 1\<rparr>,
      \<lparr>xmin = Fin 2, tmin = Fin 0, xmax = Fin 3, tmax = Fin 1\<rparr>,
      \<lparr>xmin = Fin 2, tmin = Fin 0, xmax = Fin 3, tmax = Fin 1\<rparr>,
      \<lparr>xmin = Fin 2, tmin = Fin 0, xmax = Fin 3, tmax = Fin 1\<rparr>]) = [1, 2, 3, 4, 5]"
proof -
  have c: "axis_candidates
     [\<lparr>xmin = Fin 0, tmin = Fin 0, xmax = Fin 1, tmax = Fin 1\<rparr>,
      \<lparr>xmin = Fin 0, tmin = Fin 0, xmax = Fin 1, tmax = Fin 1\<rparr>,
      \<lparr>xmin = Fin 0, tmin = Fin 0, xmax = Fin 1, tmax = Fin 1\<rparr>,
      \<lparr>xmin = Fin 2, tmin = Fin 0, xmax = Fin 3, tmax = Fin 1\<rparr>,
      \<lparr>xmin = Fin 2, tmin = Fin 0, xmax = Fin 3, tmax = Fin 1\<rparr>,
      \<lparr>xmin = Fin 2, tmin = Fin 0, xmax = Fin 3, tmax = Fin 1\<rparr>,
      \<lparr>xmin = Fin 2, tmin = Fin 0, xmax = Fin 3, tmax = Fin 1\<rparr>,
      \<lparr>xmin = Fin 2, tmin = Fin 0, xmax = Fin 3, tmax = Fin 1\<rparr>,
      \<lparr>xmin = Fin 2, tmin = Fin 0, xmax = Fin 3, tmax = Fin 1\<rparr>,
      \<lparr>xmin = Fin 2, tmin = Fin 0, xmax = Fin 3, tmax = Fin 1\<rparr>] 0 = [(Fin 2, 3, Fin 1, 3), (Fin 2, 3, Fin 1, 3)]"
   "axis_candidates
     [\<lparr>xmin = Fin 0, tmin = Fin 0, xmax = Fin 1, tmax = Fin 1\<rparr>,
      \<lparr>xmin = Fin 0, tmin = Fin 0, xmax = Fin 1, tmax = Fin 1\<rparr>,
      \<lparr>xmin = Fin 0, tmin = Fin 0, xmax = Fin 1, tmax = Fin 1\<rparr>,
      \<lparr>xmin = Fin 2, tmin = Fin 0, xmax = Fin 3, tmax = Fin 1\<rparr>,
      \<lparr>xmin = Fin 2, tmin = Fin 0, xmax = Fin 3, tmax = Fin 1\<rparr>,
      \<lparr>xmin = Fin 2, tmin = Fin 0, xmax = Fin 3, tmax = Fin 1\<rparr>,
      \<lparr>xmin = Fin 2, tmin = Fin 0, xmax = Fin 3, tmax = Fin 1\<rparr>,
      \<lparr>xmin = Fin 2, tmin = Fin 0, xmax = Fin 3, tmax = Fin 1\<rparr>,
      \<lparr>xmin = Fin 2, tmin = Fin 0, xmax = Fin 3, tmax = Fin 1\<rparr>,
      \<lparr>xmin = Fin 2, tmin = Fin 0, xmax = Fin 3, tmax = Fin 1\<rparr>] 1 = []"
    by code_simp+
  have r: "candidate_ratio 10 3 3 = 3 / 10"
    by (simp add: candidate_ratio_def candidate_min_count_def)
  have s: "spl_left (gist_tbox_picksplit
     [\<lparr>xmin = Fin 0, tmin = Fin 0, xmax = Fin 1, tmax = Fin 1\<rparr>,
      \<lparr>xmin = Fin 0, tmin = Fin 0, xmax = Fin 1, tmax = Fin 1\<rparr>,
      \<lparr>xmin = Fin 0, tmin = Fin 0, xmax = Fin 1, tmax = Fin 1\<rparr>,
      \<lparr>xmin = Fin 2, tmin = Fin 0, xmax = Fin 3, tmax = Fin 1\<rparr>,
      \<lparr>xmin = Fin 2, tmin = Fin 0, xmax = Fin 3, tmax = Fin 1\<rparr>,
      \<lparr>xmin = Fin 2, tmin = Fin 0, xmax = Fin 3, tmax = Fin 1\<rparr>,
      \<lparr>xmin = Fin 2, tmin = Fin 0, xmax = Fin 3, tmax = Fin 1\<rparr>,
      \<lparr>xmin = Fin 2, tmin = Fin 0, xmax = Fin 3, tmax = Fin 1\<rparr>,
      \<lparr>xmin = Fin 2, tmin = Fin 0, xmax = Fin 3, tmax = Fin 1\<rparr>,
      \<lparr>xmin = Fin 2, tmin = Fin 0, xmax = Fin 3, tmax = Fin 1\<rparr>]) = [1, 2, 3]"
   "spl_right (gist_tbox_picksplit
     [\<lparr>xmin = Fin 0, tmin = Fin 0, xmax = Fin 1, tmax = Fin 1\<rparr>,
      \<lparr>xmin = Fin 0, tmin = Fin 0, xmax = Fin 1, tmax = Fin 1\<rparr>,
      \<lparr>xmin = Fin 0, tmin = Fin 0, xmax = Fin 1, tmax = Fin 1\<rparr>,
      \<lparr>xmin = Fin 2, tmin = Fin 0, xmax = Fin 3, tmax = Fin 1\<rparr>,
      \<lparr>xmin = Fin 2, tmin = Fin 0, xmax = Fin 3, tmax = Fin 1\<rparr>,
      \<lparr>xmin = Fin 2, tmin = Fin 0, xmax = Fin 3, tmax = Fin 1\<rparr>,
      \<lparr>xmin = Fin 2, tmin = Fin 0, xmax = Fin 3, tmax = Fin 1\<rparr>,
      \<lparr>xmin = Fin 2, tmin = Fin 0, xmax = Fin 3, tmax = Fin 1\<rparr>,
      \<lparr>xmin = Fin 2, tmin = Fin 0, xmax = Fin 3, tmax = Fin 1\<rparr>,
      \<lparr>xmin = Fin 2, tmin = Fin 0, xmax = Fin 3, tmax = Fin 1\<rparr>]) = [4, 5, 6, 7, 8, 9, 10]"
   "spl_left (tbox_fallbackSplit
     [\<lparr>xmin = Fin 0, tmin = Fin 0, xmax = Fin 1, tmax = Fin 1\<rparr>,
      \<lparr>xmin = Fin 0, tmin = Fin 0, xmax = Fin 1, tmax = Fin 1\<rparr>,
      \<lparr>xmin = Fin 0, tmin = Fin 0, xmax = Fin 1, tmax = Fin 1\<rparr>,
      \<lparr>xmin = Fin 2, tmin = Fin 0, xmax = Fin 3, tmax = Fin 1\<rparr>,
      \<lparr>xmin = Fin 2, tmin = Fin 0, xmax = Fin 3, tmax = Fin 1\<rparr>,
      \<lparr>xmin = Fin 2, tmin = Fin 0, xmax = Fin 3, tmax = Fin 1\<rparr>,
      \<lparr>xmin = Fin 2, tmin = Fin 0, xmax = Fin 3, tmax = Fin 1\<rparr>,
      \<lparr>xmin = Fin 2, tmin = Fin 0, xmax = Fin 3, tmax = Fin 1\<rparr>,
      \<lparr>xmin = Fin 2, tmin = Fin 0, xmax = Fin 3, tmax = Fin 1\<rparr>,
      \<lparr>xmin = Fin 2, tmin = Fin 0, xmax = Fin 3, tmax = Fin 1\<rparr>]) = [1, 2, 3, 4, 5]"
    by code_simp+
  show ?thesis
    using c r s by (simp only: simp_thms)
qed

text \<open>
  C8, amended: for an entry vector of \<open>n\<close> entries, \<open>2 \<le> n < 65535\<close> (offsets are 16
  bits wide), if every candidate considered on either axis has a ratio strictly below
  \<^verbatim>\<open>LIMIT_RATIO\<close> = 0.3 (the quotient of the lesser count by \<open>n\<close>; a ratio of exactly 0.3
  is accepted), then \<^verbatim>\<open>gist_tbox_picksplit\<close> returns the trivial split and nothing else:
  the offsets \<open>1 .. n div 2\<close> in input order on the left, the remaining ones on the
  right, the two counters their numbers, and the two datums the bounding boxes of the
  first \<open>n div 2\<close> entries and of the other entries (least lower and greatest upper
  bounds in the NaN-aware order). The model has no error branch here, as the code has
  none.
\<close>

theorem picksplit_fallback:
  assumes "2 \<le> length es" and "length es < 65535"
    and "\<forall>(rightLower', minLeftCount, leftUpper', maxLeftCount)
            \<in> set (axis_candidates es 0 @ axis_candidates es 1).
          candidate_ratio (int (length es)) minLeftCount maxLeftCount < 3 / 10"
  shows "gist_tbox_picksplit es = tbox_fallbackSplit es \<and>
   spl_left (gist_tbox_picksplit es) = [1 ..< Suc (length es div 2)] \<and>
   spl_right (gist_tbox_picksplit es) = [Suc (length es div 2) ..< Suc (length es)] \<and>
   spl_nleft (gist_tbox_picksplit es) = int (length es div 2) \<and>
   spl_nright (gist_tbox_picksplit es) = int (length es - length es div 2) \<and>
   spl_ldatum (gist_tbox_picksplit es) =
     Some \<lparr> xmin = Min (xmin ` set (take (length es div 2) es)),
            tmin = Min (tmin ` set (take (length es div 2) es)),
            xmax = Max (xmax ` set (take (length es div 2) es)),
            tmax = Max (tmax ` set (take (length es div 2) es)) \<rparr> \<and>
   spl_rdatum (gist_tbox_picksplit es) =
     Some \<lparr> xmin = Min (xmin ` set (drop (length es div 2) es)),
            tmin = Min (tmin ` set (drop (length es div 2) es)),
            xmax = Max (xmax ` set (drop (length es div 2) es)),
            tmax = Max (tmax ` set (drop (length es div 2) es)) \<rparr>"
proof -
  have "0 < length es" "length es < 33554432"
    using assms(1,2) by linarith+
  from picksplit_context_first_ratio [OF this] assms(3)
  have f: "first (picksplit_context es)" by blast
  then have e: "gist_tbox_picksplit es = tbox_fallbackSplit es"
    by (simp add: gist_tbox_picksplit_def Let_def)
  show ?thesis
    unfolding e
    using tbox_fallbackSplit_halves [of es] tbox_fallbackSplit_datums [OF assms(1)]
    by (simp only: simp_thms)
qed

theorem picksplit_fallback_witness:
  "axis_candidates
     [\<lparr>xmin = Fin 0, tmin = Fin 0, xmax = Fin 10, tmax = Fin 1\<rparr>,
      \<lparr>xmin = Fin 0, tmin = Fin 0, xmax = Fin 10, tmax = Fin 1\<rparr>,
      \<lparr>xmin = Fin 0, tmin = Fin 0, xmax = Fin 10, tmax = Fin 1\<rparr>,
      \<lparr>xmin = Fin 5, tmin = Fin 0, xmax = Fin 10, tmax = Fin 1\<rparr>] 0 = [(Fin 5, 3, Fin 10, 4)] \<and>
   axis_candidates
     [\<lparr>xmin = Fin 0, tmin = Fin 0, xmax = Fin 10, tmax = Fin 1\<rparr>,
      \<lparr>xmin = Fin 0, tmin = Fin 0, xmax = Fin 10, tmax = Fin 1\<rparr>,
      \<lparr>xmin = Fin 0, tmin = Fin 0, xmax = Fin 10, tmax = Fin 1\<rparr>,
      \<lparr>xmin = Fin 5, tmin = Fin 0, xmax = Fin 10, tmax = Fin 1\<rparr>] 1 = [] \<and>
   candidate_ratio 4 3 4 = 1 / 4 \<and>
   spl_left (gist_tbox_picksplit
     [\<lparr>xmin = Fin 0, tmin = Fin 0, xmax = Fin 10, tmax = Fin 1\<rparr>,
      \<lparr>xmin = Fin 0, tmin = Fin 0, xmax = Fin 10, tmax = Fin 1\<rparr>,
      \<lparr>xmin = Fin 0, tmin = Fin 0, xmax = Fin 10, tmax = Fin 1\<rparr>,
      \<lparr>xmin = Fin 5, tmin = Fin 0, xmax = Fin 10, tmax = Fin 1\<rparr>]) = [1, 2] \<and>
   spl_right (gist_tbox_picksplit
     [\<lparr>xmin = Fin 0, tmin = Fin 0, xmax = Fin 10, tmax = Fin 1\<rparr>,
      \<lparr>xmin = Fin 0, tmin = Fin 0, xmax = Fin 10, tmax = Fin 1\<rparr>,
      \<lparr>xmin = Fin 0, tmin = Fin 0, xmax = Fin 10, tmax = Fin 1\<rparr>,
      \<lparr>xmin = Fin 5, tmin = Fin 0, xmax = Fin 10, tmax = Fin 1\<rparr>]) = [3, 4] \<and>
   spl_ldatum (gist_tbox_picksplit
     [\<lparr>xmin = Fin 0, tmin = Fin 0, xmax = Fin 10, tmax = Fin 1\<rparr>,
      \<lparr>xmin = Fin 0, tmin = Fin 0, xmax = Fin 10, tmax = Fin 1\<rparr>,
      \<lparr>xmin = Fin 0, tmin = Fin 0, xmax = Fin 10, tmax = Fin 1\<rparr>,
      \<lparr>xmin = Fin 5, tmin = Fin 0, xmax = Fin 10, tmax = Fin 1\<rparr>]) = Some \<lparr>xmin = Fin 0, tmin = Fin 0, xmax = Fin 10, tmax = Fin 1\<rparr> \<and>
   spl_rdatum (gist_tbox_picksplit
     [\<lparr>xmin = Fin 0, tmin = Fin 0, xmax = Fin 10, tmax = Fin 1\<rparr>,
      \<lparr>xmin = Fin 0, tmin = Fin 0, xmax = Fin 10, tmax = Fin 1\<rparr>,
      \<lparr>xmin = Fin 0, tmin = Fin 0, xmax = Fin 10, tmax = Fin 1\<rparr>,
      \<lparr>xmin = Fin 5, tmin = Fin 0, xmax = Fin 10, tmax = Fin 1\<rparr>]) = Some \<lparr>xmin = Fin 0, tmin = Fin 0, xmax = Fin 10, tmax = Fin 1\<rparr>"
proof -
  let ?es = "[\<lparr>xmin = Fin 0, tmin = Fin 0, xmax = Fin 10, tmax = Fin 1\<rparr>,
      \<lparr>xmin = Fin 0, tmin = Fin 0, xmax = Fin 10, tmax = Fin 1\<rparr>,
      \<lparr>xmin = Fin 0, tmin = Fin 0, xmax = Fin 10, tmax = Fin 1\<rparr>,
      \<lparr>xmin = Fin 5, tmin = Fin 0, xmax = Fin 10, tmax = Fin 1\<rparr>]"
  have c: "axis_candidates ?es 0 = [(Fin 5, 3, Fin 10, 4)]" "axis_candidates ?es 1 = []"
    by code_simp+
  have r: "candidate_ratio 4 3 4 = 1 / 4"
    by (simp add: candidate_ratio_def candidate_min_count_def)
  have l: "2 \<le> length ?es" "length ?es < 65535" "int (length ?es) = 4"
    by simp_all
  have h: "\<forall>(rightLower', minLeftCount, leftUpper', maxLeftCount)
              \<in> set (axis_candidates ?es 0 @ axis_candidates ?es 1).
            candidate_ratio (int (length ?es)) minLeftCount maxLeftCount < 3 / 10"
    unfolding c l(3) by (simp add: r)
  have u: "[1 ..< Suc (length ?es div 2)] = [1, 2]"
    "[Suc (length ?es div 2) ..< Suc (length ?es)] = [3, 4]"
    by code_simp+
  have m: "Min (xmin ` set (take (length ?es div 2) ?es)) = Fin 0"
    "Min (tmin ` set (take (length ?es div 2) ?es)) = Fin 0"
    "Max (xmax ` set (take (length ?es div 2) ?es)) = Fin 10"
    "Max (tmax ` set (take (length ?es div 2) ?es)) = Fin 1"
    "Min (xmin ` set (drop (length ?es div 2) ?es)) = Fin 0"
    "Min (tmin ` set (drop (length ?es div 2) ?es)) = Fin 0"
    "Max (xmax ` set (drop (length ?es div 2) ?es)) = Fin 10"
    "Max (tmax ` set (drop (length ?es div 2) ?es)) = Fin 1"
    by (simp_all add: Fin_le_iff min_def max_def)
  show ?thesis
    using picksplit_fallback [OF l(1,2) h] c r unfolding u m by blast
qed

text \<open>
  C3: for an entry vector of size at least 2, the left and right offsets returned by
  \<^verbatim>\<open>gist_tbox_picksplit\<close> are disjoint and together are exactly the offsets \<open>1 .. n\<close> of
  the input, each once; this holds on the double-sorting path and on the fallback path.
  The two counters are the lengths of the two arrays.
\<close>

theorem picksplit_partition:
  "2 \<le> length es \<Longrightarrow>
   distinct (spl_left (gist_tbox_picksplit es) @ spl_right (gist_tbox_picksplit es)) \<and>
   set (spl_left (gist_tbox_picksplit es)) \<union> set (spl_right (gist_tbox_picksplit es)) =
     {1 .. length es} \<and>
   set (spl_left (gist_tbox_picksplit es)) \<inter> set (spl_right (gist_tbox_picksplit es)) = {} \<and>
   spl_nleft (gist_tbox_picksplit es) = int (length (spl_left (gist_tbox_picksplit es))) \<and>
   spl_nright (gist_tbox_picksplit es) = int (length (spl_right (gist_tbox_picksplit es)))"
proof -
  let ?v = "gist_tbox_picksplit es"
  note ms = picksplit_mset [of es]
  have "distinct [1 ..< Suc (length es)]" by simp
  then have dist: "distinct (spl_left ?v @ spl_right ?v)"
    using ms by (metis mset_eq_imp_distinct_iff)
  have "set (spl_left ?v @ spl_right ?v) = set [1 ..< Suc (length es)]"
    using ms by (metis mset_eq_setD)
  then have un: "set (spl_left ?v) \<union> set (spl_right ?v) = {1 .. length es}"
    by (simp add: atLeastLessThanSuc_atLeastAtMost del: upt_Suc)
  show ?thesis using dist un ms by simp
qed


theorem picksplit_partition_witness:
  "2 \<le> length
     [\<lparr>xmin = Fin 0, tmin = Fin 0, xmax = Fin 1, tmax = Fin 1\<rparr>,
      \<lparr>xmin = Fin 5, tmin = Fin 5, xmax = Fin 6, tmax = Fin 6\<rparr>,
      \<lparr>xmin = Fin 0, tmin = Fin 5, xmax = Fin 1, tmax = Fin 6\<rparr>,
      \<lparr>xmin = Fin 5, tmin = Fin 0, xmax = Fin 6, tmax = Fin 1\<rparr>] \<and>
   spl_left (gist_tbox_picksplit
     [\<lparr>xmin = Fin 0, tmin = Fin 0, xmax = Fin 1, tmax = Fin 1\<rparr>,
      \<lparr>xmin = Fin 5, tmin = Fin 5, xmax = Fin 6, tmax = Fin 6\<rparr>,
      \<lparr>xmin = Fin 0, tmin = Fin 5, xmax = Fin 1, tmax = Fin 6\<rparr>,
      \<lparr>xmin = Fin 5, tmin = Fin 0, xmax = Fin 6, tmax = Fin 1\<rparr>]) = [1, 3] \<and>
   spl_right (gist_tbox_picksplit
     [\<lparr>xmin = Fin 0, tmin = Fin 0, xmax = Fin 1, tmax = Fin 1\<rparr>,
      \<lparr>xmin = Fin 5, tmin = Fin 5, xmax = Fin 6, tmax = Fin 6\<rparr>,
      \<lparr>xmin = Fin 0, tmin = Fin 5, xmax = Fin 1, tmax = Fin 6\<rparr>,
      \<lparr>xmin = Fin 5, tmin = Fin 0, xmax = Fin 6, tmax = Fin 1\<rparr>]) = [2, 4] \<and>
   set (spl_left (gist_tbox_picksplit
     [\<lparr>xmin = Fin 0, tmin = Fin 0, xmax = Fin 1, tmax = Fin 1\<rparr>,
      \<lparr>xmin = Fin 5, tmin = Fin 5, xmax = Fin 6, tmax = Fin 6\<rparr>,
      \<lparr>xmin = Fin 0, tmin = Fin 5, xmax = Fin 1, tmax = Fin 6\<rparr>,
      \<lparr>xmin = Fin 5, tmin = Fin 0, xmax = Fin 6, tmax = Fin 1\<rparr>])) \<union>
   set (spl_right (gist_tbox_picksplit
     [\<lparr>xmin = Fin 0, tmin = Fin 0, xmax = Fin 1, tmax = Fin 1\<rparr>,
      \<lparr>xmin = Fin 5, tmin = Fin 5, xmax = Fin 6, tmax = Fin 6\<rparr>,
      \<lparr>xmin = Fin 0, tmin = Fin 5, xmax = Fin 1, tmax = Fin 6\<rparr>,
      \<lparr>xmin = Fin 5, tmin = Fin 0, xmax = Fin 6, tmax = Fin 1\<rparr>])) = {1 .. 4}"
proof -
  have l: "2 \<le> length
     [\<lparr>xmin = Fin 0, tmin = Fin 0, xmax = Fin 1, tmax = Fin 1\<rparr>,
      \<lparr>xmin = Fin 5, tmin = Fin 5, xmax = Fin 6, tmax = Fin 6\<rparr>,
      \<lparr>xmin = Fin 0, tmin = Fin 5, xmax = Fin 1, tmax = Fin 6\<rparr>,
      \<lparr>xmin = Fin 5, tmin = Fin 0, xmax = Fin 6, tmax = Fin 1\<rparr>]"
    by simp
  have n: "length
     [\<lparr>xmin = Fin 0, tmin = Fin 0, xmax = Fin 1, tmax = Fin 1\<rparr>,
      \<lparr>xmin = Fin 5, tmin = Fin 5, xmax = Fin 6, tmax = Fin 6\<rparr>,
      \<lparr>xmin = Fin 0, tmin = Fin 5, xmax = Fin 1, tmax = Fin 6\<rparr>,
      \<lparr>xmin = Fin 5, tmin = Fin 0, xmax = Fin 6, tmax = Fin 1\<rparr>] = 4"
    by simp
  have e: "spl_left (gist_tbox_picksplit
     [\<lparr>xmin = Fin 0, tmin = Fin 0, xmax = Fin 1, tmax = Fin 1\<rparr>,
      \<lparr>xmin = Fin 5, tmin = Fin 5, xmax = Fin 6, tmax = Fin 6\<rparr>,
      \<lparr>xmin = Fin 0, tmin = Fin 5, xmax = Fin 1, tmax = Fin 6\<rparr>,
      \<lparr>xmin = Fin 5, tmin = Fin 0, xmax = Fin 6, tmax = Fin 1\<rparr>]) = [1, 3]"
    "spl_right (gist_tbox_picksplit
     [\<lparr>xmin = Fin 0, tmin = Fin 0, xmax = Fin 1, tmax = Fin 1\<rparr>,
      \<lparr>xmin = Fin 5, tmin = Fin 5, xmax = Fin 6, tmax = Fin 6\<rparr>,
      \<lparr>xmin = Fin 0, tmin = Fin 5, xmax = Fin 1, tmax = Fin 6\<rparr>,
      \<lparr>xmin = Fin 5, tmin = Fin 0, xmax = Fin 6, tmax = Fin 1\<rparr>]) = [2, 4]"
    by code_simp+
  show ?thesis
    using picksplit_partition [OF l] l e unfolding n by blast
qed

text \<open>
  C2: for an entry vector of size \<open>n \<ge> 2\<close> (offsets are 16-bit numbers, so \<open>n < 65535\<close>),
  each side of the split returned by \<^verbatim>\<open>gist_tbox_picksplit\<close> holds at least
  \<open>ceil(0.3 n)\<close> entries, on the double-sorting path with its distribution of the common
  entries as well as on the fallback path.
\<close>

theorem picksplit_min_fill:
  "2 \<le> length es \<Longrightarrow> length es < 65535 \<Longrightarrow>
   \<lceil>3 / 10 * real (length es)\<rceil> \<le>
     int (min (length (spl_left (gist_tbox_picksplit es)))
              (length (spl_right (gist_tbox_picksplit es))))"
proof -
  assume n: "2 \<le> length es" "length es < 65535"
  then have "length es < 33554432" by simp
  from picksplit_counts_fill [OF n(1) this] picksplit_mset [of es, THEN conjunct2]
  have "ceil_LIMIT_RATIO (int (length es)) \<le>
          int (length (spl_left (gist_tbox_picksplit es)))"
    and "ceil_LIMIT_RATIO (int (length es)) \<le>
          int (length (spl_right (gist_tbox_picksplit es)))"
    by simp_all
  then have "ceil_LIMIT_RATIO (int (length es)) \<le>
     int (min (length (spl_left (gist_tbox_picksplit es)))
              (length (spl_right (gist_tbox_picksplit es))))"
    by (simp add: min_def)
  then show ?thesis
    by (simp only: ceil_LIMIT_RATIO_eq of_int_of_nat_eq)
qed

theorem picksplit_min_fill_witness:
  "2 \<le> length
     [\<lparr>xmin = Fin 0, tmin = Fin 0, xmax = Fin 1, tmax = Fin 1\<rparr>,
      \<lparr>xmin = Fin 5, tmin = Fin 5, xmax = Fin 6, tmax = Fin 6\<rparr>,
      \<lparr>xmin = Fin 0, tmin = Fin 5, xmax = Fin 1, tmax = Fin 6\<rparr>,
      \<lparr>xmin = Fin 5, tmin = Fin 0, xmax = Fin 6, tmax = Fin 1\<rparr>,
      \<lparr>xmin = Fin 5, tmin = Fin 5, xmax = Fin 6, tmax = Fin 6\<rparr>] \<and>
   length
     [\<lparr>xmin = Fin 0, tmin = Fin 0, xmax = Fin 1, tmax = Fin 1\<rparr>,
      \<lparr>xmin = Fin 5, tmin = Fin 5, xmax = Fin 6, tmax = Fin 6\<rparr>,
      \<lparr>xmin = Fin 0, tmin = Fin 5, xmax = Fin 1, tmax = Fin 6\<rparr>,
      \<lparr>xmin = Fin 5, tmin = Fin 0, xmax = Fin 6, tmax = Fin 1\<rparr>,
      \<lparr>xmin = Fin 5, tmin = Fin 5, xmax = Fin 6, tmax = Fin 6\<rparr>] < 65535 \<and>
   spl_left (gist_tbox_picksplit
     [\<lparr>xmin = Fin 0, tmin = Fin 0, xmax = Fin 1, tmax = Fin 1\<rparr>,
      \<lparr>xmin = Fin 5, tmin = Fin 5, xmax = Fin 6, tmax = Fin 6\<rparr>,
      \<lparr>xmin = Fin 0, tmin = Fin 5, xmax = Fin 1, tmax = Fin 6\<rparr>,
      \<lparr>xmin = Fin 5, tmin = Fin 0, xmax = Fin 6, tmax = Fin 1\<rparr>,
      \<lparr>xmin = Fin 5, tmin = Fin 5, xmax = Fin 6, tmax = Fin 6\<rparr>]) = [1, 3] \<and>
   spl_right (gist_tbox_picksplit
     [\<lparr>xmin = Fin 0, tmin = Fin 0, xmax = Fin 1, tmax = Fin 1\<rparr>,
      \<lparr>xmin = Fin 5, tmin = Fin 5, xmax = Fin 6, tmax = Fin 6\<rparr>,
      \<lparr>xmin = Fin 0, tmin = Fin 5, xmax = Fin 1, tmax = Fin 6\<rparr>,
      \<lparr>xmin = Fin 5, tmin = Fin 0, xmax = Fin 6, tmax = Fin 1\<rparr>,
      \<lparr>xmin = Fin 5, tmin = Fin 5, xmax = Fin 6, tmax = Fin 6\<rparr>]) = [2, 4, 5] \<and>
   \<lceil>3 / 10 * real (length
     [\<lparr>xmin = Fin 0, tmin = Fin 0, xmax = Fin 1, tmax = Fin 1\<rparr>,
      \<lparr>xmin = Fin 5, tmin = Fin 5, xmax = Fin 6, tmax = Fin 6\<rparr>,
      \<lparr>xmin = Fin 0, tmin = Fin 5, xmax = Fin 1, tmax = Fin 6\<rparr>,
      \<lparr>xmin = Fin 5, tmin = Fin 0, xmax = Fin 6, tmax = Fin 1\<rparr>,
      \<lparr>xmin = Fin 5, tmin = Fin 5, xmax = Fin 6, tmax = Fin 6\<rparr>])\<rceil> \<le>
     int (min (length (spl_left (gist_tbox_picksplit
     [\<lparr>xmin = Fin 0, tmin = Fin 0, xmax = Fin 1, tmax = Fin 1\<rparr>,
      \<lparr>xmin = Fin 5, tmin = Fin 5, xmax = Fin 6, tmax = Fin 6\<rparr>,
      \<lparr>xmin = Fin 0, tmin = Fin 5, xmax = Fin 1, tmax = Fin 6\<rparr>,
      \<lparr>xmin = Fin 5, tmin = Fin 0, xmax = Fin 6, tmax = Fin 1\<rparr>,
      \<lparr>xmin = Fin 5, tmin = Fin 5, xmax = Fin 6, tmax = Fin 6\<rparr>])))
              (length (spl_right (gist_tbox_picksplit
     [\<lparr>xmin = Fin 0, tmin = Fin 0, xmax = Fin 1, tmax = Fin 1\<rparr>,
      \<lparr>xmin = Fin 5, tmin = Fin 5, xmax = Fin 6, tmax = Fin 6\<rparr>,
      \<lparr>xmin = Fin 0, tmin = Fin 5, xmax = Fin 1, tmax = Fin 6\<rparr>,
      \<lparr>xmin = Fin 5, tmin = Fin 0, xmax = Fin 6, tmax = Fin 1\<rparr>,
      \<lparr>xmin = Fin 5, tmin = Fin 5, xmax = Fin 6, tmax = Fin 6\<rparr>]))))"
proof -
  have l: "2 \<le> length
     [\<lparr>xmin = Fin 0, tmin = Fin 0, xmax = Fin 1, tmax = Fin 1\<rparr>,
      \<lparr>xmin = Fin 5, tmin = Fin 5, xmax = Fin 6, tmax = Fin 6\<rparr>,
      \<lparr>xmin = Fin 0, tmin = Fin 5, xmax = Fin 1, tmax = Fin 6\<rparr>,
      \<lparr>xmin = Fin 5, tmin = Fin 0, xmax = Fin 6, tmax = Fin 1\<rparr>,
      \<lparr>xmin = Fin 5, tmin = Fin 5, xmax = Fin 6, tmax = Fin 6\<rparr>]"
    "length
     [\<lparr>xmin = Fin 0, tmin = Fin 0, xmax = Fin 1, tmax = Fin 1\<rparr>,
      \<lparr>xmin = Fin 5, tmin = Fin 5, xmax = Fin 6, tmax = Fin 6\<rparr>,
      \<lparr>xmin = Fin 0, tmin = Fin 5, xmax = Fin 1, tmax = Fin 6\<rparr>,
      \<lparr>xmin = Fin 5, tmin = Fin 0, xmax = Fin 6, tmax = Fin 1\<rparr>,
      \<lparr>xmin = Fin 5, tmin = Fin 5, xmax = Fin 6, tmax = Fin 6\<rparr>] < 65535"
    by simp_all
  have e: "spl_left (gist_tbox_picksplit
     [\<lparr>xmin = Fin 0, tmin = Fin 0, xmax = Fin 1, tmax = Fin 1\<rparr>,
      \<lparr>xmin = Fin 5, tmin = Fin 5, xmax = Fin 6, tmax = Fin 6\<rparr>,
      \<lparr>xmin = Fin 0, tmin = Fin 5, xmax = Fin 1, tmax = Fin 6\<rparr>,
      \<lparr>xmin = Fin 5, tmin = Fin 0, xmax = Fin 6, tmax = Fin 1\<rparr>,
      \<lparr>xmin = Fin 5, tmin = Fin 5, xmax = Fin 6, tmax = Fin 6\<rparr>]) = [1, 3]"
    "spl_right (gist_tbox_picksplit
     [\<lparr>xmin = Fin 0, tmin = Fin 0, xmax = Fin 1, tmax = Fin 1\<rparr>,
      \<lparr>xmin = Fin 5, tmin = Fin 5, xmax = Fin 6, tmax = Fin 6\<rparr>,
      \<lparr>xmin = Fin 0, tmin = Fin 5, xmax = Fin 1, tmax = Fin 6\<rparr>,
      \<lparr>xmin = Fin 5, tmin = Fin 0, xmax = Fin 6, tmax = Fin 1\<rparr>,
      \<lparr>xmin = Fin 5, tmin = Fin 5, xmax = Fin 6, tmax = Fin 6\<rparr>]) = [2, 4, 5]"
    by code_simp+
  show ?thesis
    using picksplit_min_fill [OF l] l e by blast
qed

end
